theory Spec2Isabelle
  imports Complex_Main "HOL-Library.AList" "HOL-Library.Product_Lexorder"
begin

section \<open>Scanorama: a shallow embedding of \<^verbatim>\<open>scanorama/scanorama.py\<close>\<close>

text \<open>
  The Python module aligns point-cloud datasets: it searches nearest neighbours between
  datasets, scores dataset pairs, groups datasets into panoramas and corrects
  coordinates by kernel regression. The embedding follows the source function by
  function. Floating-point numbers are modelled as exact reals, Python integers as
  \<open>int\<close> or \<open>nat\<close>, every exception as a value of \<open>error\<close>.
\<close>

subsection \<open>Errors and the error monad\<close>

text \<open>
  The exceptions the module and its libraries raise. \<open>NonFinite\<close> is not a Python
  exception: numpy divides by zero without raising and goes on with \<^verbatim>\<open>nan\<close> entries;
  the matrices of the model hold reals only, so the model stops there.
\<close>

datatype error =
  AssertionError | ValueError | IndexError | ZeroDivisionError | KeyError | NonFinite

fun ebind :: "'e + 'a \<Rightarrow> ('a \<Rightarrow> 'e + 'b) \<Rightarrow> 'e + 'b" where
  "ebind (Inl e) f = Inl e"
| "ebind (Inr x) f = f x"

text \<open>A list comprehension whose body may raise: the first exception wins.\<close>

fun emap :: "('a \<Rightarrow> 'e + 'b) \<Rightarrow> 'a list \<Rightarrow> 'e + 'b list" where
  "emap f [] = Inr []"
| "emap f (x # xs) = ebind (f x) (\<lambda>y. ebind (emap f xs) (\<lambda>ys. Inr (y # ys)))"

text \<open>A \<^verbatim>\<open>for\<close> loop over a list that updates a state and may raise.\<close>

fun efold :: "('a \<Rightarrow> 's \<Rightarrow> 'e + 's) \<Rightarrow> 'a list \<Rightarrow> 's \<Rightarrow> 'e + 's" where
  "efold f [] s = Inr s"
| "efold f (x # xs) s = ebind (f x s) (efold f xs)"

subsection \<open>Matrices\<close>

text \<open>
  A numpy (or scipy sparse) matrix of shape \<open>(length (rows m), ncols m)\<close>. The column
  count is a field of its own because a matrix without rows still has one.
\<close>

record matrix =
  ncols :: nat
  rows :: "real list list"

definition shape0 :: "matrix \<Rightarrow> nat" where
  "shape0 m = length (rows m)"


subsection \<open>Nearest-neighbour search\<close>

text \<open>
  The two search libraries are outside the repository; they are parameters of the
  model. \<open>kneighbors E knn p ds2 ds1\<close> is
  \<^verbatim>\<open>NearestNeighbors(knn, p=p).fit(ds2).kneighbors(ds1, return_distance=False)\<close>, one
  row of neighbour indices per query row. \<open>get_nns_by_vector E ds2 v knn\<close> is the
  query of one vector \<open>v\<close> against the Annoy index built from the rows of \<open>ds2\<close>.
  Both may raise.
\<close>

record searcher =
  kneighbors :: "nat \<Rightarrow> nat \<Rightarrow> matrix \<Rightarrow> matrix \<Rightarrow> error + int list list"
  get_nns_by_vector :: "matrix \<Rightarrow> real list \<Rightarrow> nat \<Rightarrow> error + int list"

text \<open>
  The loop shared by \<^verbatim>\<open>nn\<close> and \<^verbatim>\<open>nn_approx\<close>:
  \<^verbatim>\<open>for a, b in zip(range(ds1.shape[0]), ind): for b_i in b: match.add((a, b_i))\<close>.
\<close>

definition match_pairs :: "nat \<Rightarrow> int list list \<Rightarrow> (int \<times> int) set" where
  "match_pairs n ind =
     set (concat (map (\<lambda>(a, b). map (\<lambda>b_i. (int a, b_i)) b) (zip [0..<n] ind)))"

definition nn :: "searcher \<Rightarrow> matrix \<Rightarrow> matrix \<Rightarrow> nat \<Rightarrow> nat \<Rightarrow> error + (int \<times> int) set" where
  "nn E ds1 ds2 knn metric_p =
     ebind (kneighbors E knn metric_p ds2 ds1) (\<lambda>ind.
       Inr (match_pairs (shape0 ds1) ind))"

definition nn_approx :: "searcher \<Rightarrow> matrix \<Rightarrow> matrix \<Rightarrow> nat \<Rightarrow> error + (int \<times> int) set" where
  "nn_approx E ds1 ds2 knn =
     ebind (emap (\<lambda>v. get_nns_by_vector E ds2 v knn) (rows ds1)) (\<lambda>ind.
       Inr (match_pairs (shape0 ds1) ind))"

text \<open>The directional search \<^verbatim>\<open>mnn\<close> runs twice: \<^verbatim>\<open>nn_approx\<close> or \<^verbatim>\<open>nn\<close> by the flag.\<close>

definition directional :: "searcher \<Rightarrow> bool \<Rightarrow> matrix \<Rightarrow> matrix \<Rightarrow> nat \<Rightarrow> error + (int \<times> int) set" where
  "directional E approx ds1 ds2 knn =
     (if approx then nn_approx E ds1 ds2 knn else nn E ds1 ds2 knn 2)"

definition mnn :: "searcher \<Rightarrow> matrix \<Rightarrow> matrix \<Rightarrow> nat \<Rightarrow> bool \<Rightarrow> error + (int \<times> int) set" where
  "mnn E ds1 ds2 knn approx =
     ebind (directional E approx ds1 ds2 knn) (\<lambda>match1.
     ebind (directional E approx ds2 ds1 knn) (\<lambda>match2.
       Inr (match1 \<inter> (\<lambda>(a, b). (b, a)) ` match2)))"

subsection \<open>Library functions on matrices\<close>

text \<open>
  \<^verbatim>\<open>np.concatenate\<close> (and \<^verbatim>\<open>scipy.sparse.vstack\<close>) along the rows: it raises on an
  empty list and on blocks whose column counts differ.
\<close>

definition np_concatenate :: "matrix list \<Rightarrow> error + matrix" where
  "np_concatenate ms =
     (case ms of
        [] \<Rightarrow> Inl ValueError
      | m # _ \<Rightarrow>
          if list_all (\<lambda>x. ncols x = ncols m) ms
          then Inr \<lparr>ncols = ncols m, rows = concat (map rows ms)\<rparr>
          else Inl ValueError)"

text \<open>
  \<^verbatim>\<open>sklearn.preprocessing.normalize(ds, axis=1)\<close>, from the library's documentation:
  every row is scaled to unit Euclidean norm, a zero row is left as it is. The
  library's input validation is not modelled.
\<close>

definition normalize_row :: "real list \<Rightarrow> real list" where
  "normalize_row r =
     (let n = sqrt (sum_list (map (\<lambda>x. x * x) r))
      in if n = 0 then r else map (\<lambda>x. x / n) r)"

definition normalize_mat :: "matrix \<Rightarrow> matrix" where
  "normalize_mat ds = \<lparr>ncols = ncols ds, rows = map normalize_row (rows ds)\<rparr>"

subsection \<open>Interval trees\<close>

text \<open>
  An \<^verbatim>\<open>IntervalTree\<close> is a set of intervals \<open>(begin, end, data)\<close>, kept here as a list
  without duplicates. \<^verbatim>\<open>tree[begin:end] = data\<close> raises \<^verbatim>\<open>ValueError\<close> on a null
  interval; \<^verbatim>\<open>tree[point]\<close> is the set of intervals with \<open>begin \<le> point < end\<close>.
\<close>

type_synonym 'a itree = "(int \<times> int \<times> 'a) list"

definition itree_set :: "'a itree \<Rightarrow> int \<Rightarrow> int \<Rightarrow> 'a \<Rightarrow> error + 'a itree" where
  "itree_set t b e d = (if b \<ge> e then Inl ValueError else Inr (List.insert (b, e, d) t))"

definition itree_get :: "'a itree \<Rightarrow> int \<Rightarrow> (int \<times> int \<times> 'a) list" where
  "itree_get t p = filter (\<lambda>(b, e, d). b \<le> p \<and> p < e) t"

subsection \<open>The table of matches: \<^verbatim>\<open>fill_table\<close>\<close>

text \<open>
  \<^verbatim>\<open>table\<close> is a dictionary from ordered dataset pairs to sets of index pairs. It is
  only looked up by key, never iterated, so it is a map.
\<close>

type_synonym table = "(nat \<times> nat) \<rightharpoonup> (int \<times> int) set"

text \<open>One round of the loop that builds the two interval trees (lines 325 to 329).\<close>

definition itree_step ::
  "matrix list \<Rightarrow> nat \<Rightarrow> nat \<Rightarrow> nat itree \<times> int itree \<times> int \<Rightarrow> error + nat itree \<times> int itree \<times> int"
where
  "itree_step datasets base_ds j = (\<lambda>(itree_ds_idx, itree_pos_base, pos).
     let n_cells = int (shape0 (datasets ! j)) in
     ebind (itree_set itree_ds_idx pos (pos + n_cells) (base_ds + j)) (\<lambda>itree_ds_idx'.
     ebind (itree_set itree_pos_base pos (pos + n_cells) pos) (\<lambda>itree_pos_base'.
       Inr (itree_ds_idx', itree_pos_base', pos + n_cells))))"

definition build_itrees :: "matrix list \<Rightarrow> nat \<Rightarrow> error + nat itree \<times> int itree \<times> int" where
  "build_itrees datasets base_ds =
     efold (itree_step datasets base_ds) [0..<length datasets] ([], [], 0)"

text \<open>
  One round of the loop over the matches (lines 332 to 342). The three assertions of
  the source are the three \<open>AssertionError\<close> branches.
\<close>

definition store_match :: "nat \<Rightarrow> nat itree \<Rightarrow> int itree \<Rightarrow> int \<times> int \<Rightarrow> table \<Rightarrow> error + table" where
  "store_match i itree_ds_idx itree_pos_base = (\<lambda>(d, r) table.
     let interval = itree_get itree_ds_idx r in
     if length interval \<noteq> 1 then Inl AssertionError
     else
       let j = snd (snd (hd interval));
           interval' = itree_get itree_pos_base r
       in
       if length interval' \<noteq> 1 then Inl AssertionError
       else
         let base = snd (snd (hd interval'));
             cur = (case table (i, j) of None \<Rightarrow> {} | Some s \<Rightarrow> s);
             table' = table((i, j) \<mapsto> insert (d, r - base) cur)
         in if r - base \<ge> 0 then Inr table' else Inl AssertionError)"

text \<open>
  Python iterates the set \<^verbatim>\<open>match\<close> in an order of its own; the model takes the
  sorted order. The table that results does not depend on the order.
\<close>

definition fill_table ::
  "searcher \<Rightarrow> table \<Rightarrow> nat \<Rightarrow> matrix \<Rightarrow> matrix list \<Rightarrow> nat \<Rightarrow> nat \<Rightarrow> bool \<Rightarrow> error + table"
where
  "fill_table E table i curr_ds datasets base_ds knn approx =
     ebind (np_concatenate datasets) (\<lambda>curr_ref.
     ebind (if approx then nn_approx E curr_ds curr_ref knn
            else nn E curr_ds curr_ref knn 1) (\<lambda>match.
     ebind (build_itrees datasets base_ds) (\<lambda>(itree_ds_idx, itree_pos_base, pos).
       efold (store_match i itree_ds_idx itree_pos_base) (sorted_list_of_set match) table)))"

subsection \<open>Alignment scores: \<^verbatim>\<open>find_alignments_table\<close>\<close>

text \<open>
  \<^verbatim>\<open>table1\<close> is iterated by \<^verbatim>\<open>find_alignments\<close>, so it is an association list in
  insertion order; \<^verbatim>\<open>matches\<close> is only looked up by key.
\<close>

type_synonym scores = "((nat \<times> nat) \<times> real) list"
type_synonym matches = "(nat \<times> nat) \<rightharpoonup> (int \<times> int) set"

text \<open>One round of the first loop (lines 351 to 357).\<close>

definition fill_step :: "searcher \<Rightarrow> matrix list \<Rightarrow> nat \<Rightarrow> bool \<Rightarrow> nat \<Rightarrow> table \<Rightarrow> error + table" where
  "fill_step E datasets knn approx i table =
     ebind (if length (take i datasets) > 0
            then fill_table E table i (datasets ! i) (take i datasets) 0 knn approx
            else Inr table) (\<lambda>table'.
       if length (drop (i + 1) datasets) > 0
       then fill_table E table' i (datasets ! i) (drop (i + 1) datasets) (i + 1) knn approx
       else Inr table')"

definition fill_tables :: "searcher \<Rightarrow> matrix list \<Rightarrow> nat \<Rightarrow> bool \<Rightarrow> error + table" where
  "fill_tables E datasets knn approx =
     efold (fill_step E datasets knn approx) [0..<length datasets] Map.empty"

text \<open>
  One round \<open>(i, j)\<close> of the nested loops that count the mutual matches (lines 363 to
  378). Dividing a Python float by the integer zero raises.
\<close>

definition score_step ::
  "matrix list \<Rightarrow> table \<Rightarrow> nat \<times> nat \<Rightarrow> matches \<times> scores \<times> real list list
     \<Rightarrow> error + matches \<times> scores \<times> real list list"
where
  "score_step datasets table = (\<lambda>(i, j) (matches, table1, table_print).
     if i \<ge> j then Inr (matches, table1, table_print)
     else
       case (table (i, j), table (j, i)) of
         (Some match_ij, Some t_ji) \<Rightarrow>
           let match_ji = (\<lambda>(a, b). (b, a)) ` t_ji;
               m = match_ij \<inter> match_ji
           in
           if shape0 (datasets ! i) = 0 \<or> shape0 (datasets ! j) = 0 then Inl ZeroDivisionError
           else
             let val = max (real (card (fst ` m)) / real (shape0 (datasets ! i)))
                           (real (card (snd ` m)) / real (shape0 (datasets ! j)))
             in Inr (matches((i, j) \<mapsto> m),
                     AList.update (i, j) val table1,
                     table_print[i := (table_print ! i)[j := table_print ! i ! j + val]])
       | _ \<Rightarrow> Inr (matches, table1, table_print))"

definition score_tables ::
  "matrix list \<Rightarrow> table \<Rightarrow> error + matches \<times> scores \<times> real list list"
where
  "score_tables datasets table =
     efold (score_step datasets table)
       (List.product [0..<length datasets] [0..<length datasets])
       (Map.empty, [], replicate (length datasets) (replicate (length datasets) 0))"

definition find_alignments_table ::
  "searcher \<Rightarrow> matrix list \<Rightarrow> nat \<Rightarrow> bool \<Rightarrow> bool \<Rightarrow> error + scores \<times> real list list \<times> matches"
where
  "find_alignments_table E datasets0 knn approx prenormalized =
     (let datasets = (if \<not> prenormalized then map normalize_mat datasets0 else datasets0) in
      ebind (fill_tables E datasets knn approx) (\<lambda>table.
      ebind (score_tables datasets table) (\<lambda>(matches, table1, table_print).
        Inr (table1, table_print, matches))))"

subsection \<open>Thresholding and ordering: \<^verbatim>\<open>find_alignments\<close>\<close>

text \<open>
  The comprehension of lines 392 to 394: \<^verbatim>\<open>sorted\<close> is stable and ascending in the
  score, \<^verbatim>\<open>reversed\<close> turns the list around, the condition keeps the scores above
  \<open>alpha\<close>.
\<close>

definition alignments_of :: "scores \<Rightarrow> real \<Rightarrow> (nat \<times> nat) list" where
  "alignments_of table1 alpha =
     map fst (filter (\<lambda>(k, val). val > alpha) (rev (sort_key snd table1)))"

definition find_alignments ::
  "searcher \<Rightarrow> matrix list \<Rightarrow> nat \<Rightarrow> bool \<Rightarrow> real \<Rightarrow> bool \<Rightarrow> error + (nat \<times> nat) list \<times> matches"
where
  "find_alignments E datasets knn approx alpha prenormalized =
     ebind (find_alignments_table E datasets knn approx prenormalized)
       (\<lambda>(table1, table_print, matches). Inr (alignments_of table1 alpha, matches))"

subsection \<open>Panoramas: \<^verbatim>\<open>connect\<close>\<close>

text \<open>
  \<^verbatim>\<open>panoramas\<close> is a list of lists that the loop mutates through references
  (\<^verbatim>\<open>panoramas_i[0]\<close> is one of the lists of \<^verbatim>\<open>panoramas\<close>). Every list is created
  fresh and stored once, so the position in \<^verbatim>\<open>panoramas\<close> identifies the object:
  \<^verbatim>\<open>panoramas_i\<close> is modelled as the list of positions, and a mutation through the
  reference as an update at that position.
\<close>

definition find_panoramas :: "nat list list \<Rightarrow> nat \<Rightarrow> nat list" where
  "find_panoramas panoramas i =
     filter (\<lambda>p. i \<in> set (panoramas ! p)) [0..<length panoramas]"

text \<open>
  Lines 428 to 430 (and 661 to 663): the lists are compared by value, the second is
  appended to the first in place, and \<^verbatim>\<open>remove\<close> deletes the first list of
  \<^verbatim>\<open>panoramas\<close> that equals the second by value.
\<close>

definition merge_panoramas :: "nat list list \<Rightarrow> nat \<Rightarrow> nat \<Rightarrow> nat list list" where
  "merge_panoramas panoramas p_i p_j =
     (if panoramas ! p_i \<noteq> panoramas ! p_j then
        let panoramas' = panoramas[p_i := panoramas ! p_i @ panoramas ! p_j]
        in remove1 (panoramas' ! p_j) panoramas'
      else panoramas)"

definition connect_step ::
  "nat \<times> nat \<Rightarrow> nat list list \<times> nat set \<Rightarrow> error + nat list list \<times> nat set"
where
  "connect_step = (\<lambda>(i, j) (panoramas, connected_ds).
     let panoramas_i = find_panoramas panoramas i in
     if \<not> length panoramas_i \<le> 1 then Inl AssertionError
     else
       let panoramas_j = find_panoramas panoramas j in
       if \<not> length panoramas_j \<le> 1 then Inl AssertionError
       else
         let (panoramas1, panoramas_i1) =
               (if length panoramas_i = 0 \<and> length panoramas_j = 0
                then (panoramas @ [[i]], [length panoramas])
                else (panoramas, panoramas_i));
             panoramas2 =
               (if length panoramas_i1 = 0
                then panoramas1[hd panoramas_j := panoramas1 ! hd panoramas_j @ [i]]
                else if length panoramas_j = 0
                then panoramas1[hd panoramas_i1 := panoramas1 ! hd panoramas_i1 @ [j]]
                else merge_panoramas panoramas1 (hd panoramas_i1) (hd panoramas_j))
         in Inr (panoramas2, insert j (insert i connected_ds)))"

text \<open>Lines 435 to 437: the datasets no edge touched become singletons.\<close>

definition add_singletons :: "nat \<Rightarrow> nat set \<Rightarrow> nat list list \<Rightarrow> nat list list" where
  "add_singletons n connected_ds panoramas =
     fold (\<lambda>i ps. if i \<notin> connected_ds then ps @ [[i]] else ps) [0..<n] panoramas"

definition connect ::
  "searcher \<Rightarrow> matrix list \<Rightarrow> nat \<Rightarrow> bool \<Rightarrow> real \<Rightarrow> error + nat list list"
where
  "connect E datasets knn approx alpha =
     ebind (find_alignments E datasets knn approx alpha False) (\<lambda>(alignments, matches).
     ebind (efold connect_step alignments ([], {})) (\<lambda>(panoramas, connected_ds).
       Inr (add_singletons (length datasets) connected_ds panoramas)))"

subsection \<open>Example inputs\<close>

text \<open>
  A search capability that returns the first \<open>knn\<close> reference indices for every query,
  and three one-dimensional datasets whose rows have unit norm.
\<close>

definition ex_searcher :: searcher where
  "ex_searcher =
     \<lparr>kneighbors = (\<lambda>knn p ds2 ds1.
        Inr (map (\<lambda>_. map int [0..<min knn (shape0 ds2)]) (rows ds1))),
      get_nns_by_vector = (\<lambda>ds2 v knn. Inr (map int [0..<min knn (shape0 ds2)]))\<rparr>"

definition ex_A :: matrix where
  "ex_A = \<lparr>ncols = 1, rows = [[1], [1]]\<rparr>"

definition ex_B :: matrix where
  "ex_B = \<lparr>ncols = 1, rows = [[1]]\<rparr>"

definition ex_C :: matrix where
  "ex_C = \<lparr>ncols = 1, rows = [[-1], [-1]]\<rparr>"

definition ex_scores :: scores where
  "ex_scores = [((0, 1), 1 / 2), ((0, 2), 1 / 20), ((1, 2), 4 / 5), ((1, 3), 1 / 2)]"

subsection \<open>Invariants used in the proofs\<close>

text \<open>
  After \<open>n\<close> rounds of the loop that builds the interval trees, the intervals tile
  \<open>[0, pos)\<close>: every offset below \<open>pos\<close> lies in exactly one interval of each tree, and
  the two trees hold the same intervals.
\<close>

definition itrees_inv :: "matrix list \<Rightarrow> nat \<Rightarrow> nat \<Rightarrow> nat itree \<times> int itree \<times> int \<Rightarrow> bool" where
  "itrees_inv ds base_ds n = (\<lambda>(t1, t2, pos).
     pos = int (sum_list (map shape0 (take n ds)))
     \<and> (\<forall>(b, e, d) \<in> set t1. 0 \<le> b \<and> b < e \<and> e \<le> pos \<and> (\<exists>k<n. d = base_ds + k)
           \<and> (b, e, b) \<in> set t2)
     \<and> (\<forall>(b, e, d) \<in> set t2. 0 \<le> b \<and> b < e \<and> e \<le> pos \<and> d = b)
     \<and> (\<forall>r. 0 \<le> r \<and> r < pos \<longrightarrow> length (itree_get t1 r) = 1 \<and> length (itree_get t2 r) = 1))"

text \<open>
  Every set stored in \<open>table\<close> under a key \<open>(i, j)\<close> is non-empty, and the first index of
  each of its pairs is a row of dataset \<open>i\<close>.
\<close>

definition table_inv :: "matrix list \<Rightarrow> table \<Rightarrow> bool" where
  "table_inv ds table =
     (\<forall>i j s. table (i, j) = Some s \<longrightarrow>
        s \<noteq> {} \<and> (\<forall>(d, l) \<in> s. 0 \<le> d \<and> d < int (shape0 (ds ! i))))"

text \<open>
  Names for what one round of the scoring loop computes: the mutual match set of a
  pair, its score, and the condition under which the pair is scored at all.
\<close>

definition mutual_of :: "table \<Rightarrow> nat \<times> nat \<Rightarrow> (int \<times> int) set" where
  "mutual_of table k = the (table k) \<inter> (\<lambda>(a, b). (b, a)) ` the (table (snd k, fst k))"

definition score_of :: "matrix list \<Rightarrow> table \<Rightarrow> nat \<times> nat \<Rightarrow> real" where
  "score_of ds table k =
     max (real (card (fst ` mutual_of table k)) / real (shape0 (ds ! fst k)))
         (real (card (snd ` mutual_of table k)) / real (shape0 (ds ! snd k)))"

definition scored :: "table \<Rightarrow> nat \<times> nat \<Rightarrow> bool" where
  "scored table k \<longleftrightarrow> fst k < snd k \<and> table k \<noteq> None \<and> table (snd k, fst k) \<noteq> None"


text \<open>
  The invariant of the loop of \<open>connect\<close>: the panoramas are distinct, non-empty lists
  without repetition, pairwise disjoint, and together they hold the datasets of
  \<open>connected\<close>.
\<close>

definition pan_inv :: "nat list list \<Rightarrow> nat set \<Rightarrow> bool" where
  "pan_inv ps c \<longleftrightarrow>
     distinct ps \<and> (\<forall>a \<in> set ps. a \<noteq> [] \<and> distinct a)
     \<and> (\<forall>a \<in> set ps. \<forall>b \<in> set ps. a \<noteq> b \<longrightarrow> set a \<inter> set b = {})
     \<and> \<Union> (set ` set ps) = c"


subsection \<open>Numpy operations used by the kernel regression\<close>

text \<open>
  Indexing a matrix by a list of row indices, \<^verbatim>\<open>m[idx, :]\<close>: a negative index counts
  from the end, an index out of range raises.
\<close>

definition np_take_rows :: "matrix \<Rightarrow> int list \<Rightarrow> error + matrix" where
  "np_take_rows m idx =
     ebind (emap (\<lambda>k. let n = int (shape0 m) in
                      if - n \<le> k \<and> k < n
                      then Inr (rows m ! nat (if k < 0 then k + n else k))
                      else Inl IndexError) idx)
       (\<lambda>rs. Inr \<lparr>ncols = ncols m, rows = rs\<rparr>)"

text \<open>
  The element-wise operations \<^verbatim>\<open>+\<close>, \<^verbatim>\<open>-\<close> and \<^verbatim>\<open>/\<close>. The model requires equal shapes
  and raises otherwise; numpy's broadcasting of a single row or column against a larger
  operand is outside the model. Where a divisor is zero numpy yields a non-finite
  entry; see \<open>NonFinite\<close>.
\<close>

definition same_shape :: "matrix \<Rightarrow> matrix \<Rightarrow> bool" where
  "same_shape A B \<longleftrightarrow> shape0 A = shape0 B \<and> ncols A = ncols B"

definition np_add :: "matrix \<Rightarrow> matrix \<Rightarrow> error + matrix" where
  "np_add A B =
     (if \<not> same_shape A B then Inl ValueError
      else Inr \<lparr>ncols = ncols A, rows = map2 (map2 (+)) (rows A) (rows B)\<rparr>)"

definition np_subtract :: "matrix \<Rightarrow> matrix \<Rightarrow> error + matrix" where
  "np_subtract A B =
     (if \<not> same_shape A B then Inl ValueError
      else Inr \<lparr>ncols = ncols A, rows = map2 (map2 (-)) (rows A) (rows B)\<rparr>)"

definition np_divide :: "matrix \<Rightarrow> matrix \<Rightarrow> error + matrix" where
  "np_divide A B =
     (if \<not> same_shape A B then Inl ValueError
      else if list_ex (list_ex (\<lambda>x. x = 0)) (rows B) then Inl NonFinite
      else Inr \<lparr>ncols = ncols A, rows = map2 (map2 (/)) (rows A) (rows B)\<rparr>)"

definition np_zeros :: "nat \<Rightarrow> nat \<Rightarrow> matrix" where
  "np_zeros n d = \<lparr>ncols = d, rows = replicate n (replicate d 0)\<rparr>"

text \<open>The matrix product \<^verbatim>\<open>np.dot(A, B)\<close>.\<close>

definition np_dot :: "matrix \<Rightarrow> matrix \<Rightarrow> error + matrix" where
  "np_dot A B =
     (if ncols A \<noteq> shape0 B then Inl ValueError
      else Inr \<lparr>ncols = ncols B,
                rows = map (\<lambda>a. map (\<lambda>c. sum_list (map (\<lambda>k. a ! k * rows B ! k ! c)
                                                     [0..<shape0 B]))
                                    [0..<ncols B])
                           (rows A)\<rparr>)"

text \<open>\<^verbatim>\<open>np.sum(W, axis=1)\<close>, the vector of the row sums.\<close>

definition np_sum_axis1 :: "matrix \<Rightarrow> real list" where
  "np_sum_axis1 W = map sum_list (rows W)"

text \<open>\<^verbatim>\<open>np.tile(v, (d, 1)).T\<close>: row \<open>i\<close> is \<open>d\<close> copies of \<open>v[i]\<close>.\<close>

definition tile_T :: "real list \<Rightarrow> nat \<Rightarrow> matrix" where
  "tile_T v d = \<lparr>ncols = d, rows = map (replicate d) v\<rparr>"

text \<open>The in-place sum of two vectors, \<^verbatim>\<open>denom += s\<close>.\<close>

definition vec_add :: "real list \<Rightarrow> real list \<Rightarrow> error + real list" where
  "vec_add u v = (if length u \<noteq> length v then Inl ValueError else Inr (map2 (+) u v))"

text \<open>
  \<^verbatim>\<open>sklearn.metrics.pairwise.rbf_kernel(X, Y, gamma)\<close>, from the library's
  documentation: the entry for the rows \<open>x\<close> and \<open>y\<close> is \<open>exp (- gamma * \<parallel>x - y\<parallel>\<^sup>2)\<close>;
  it raises when the column counts differ. The library's other input validation is not
  modelled.
\<close>

definition sqdist :: "real list \<Rightarrow> real list \<Rightarrow> real" where
  "sqdist x y = sum_list (map2 (\<lambda>a b. (a - b) ^ 2) x y)"

definition rbf_kernel :: "matrix \<Rightarrow> matrix \<Rightarrow> real \<Rightarrow> error + matrix" where
  "rbf_kernel X Y gamma =
     (if ncols X \<noteq> ncols Y then Inl ValueError
      else Inr \<lparr>ncols = shape0 Y,
                rows = map (\<lambda>x. map (\<lambda>y. exp (- gamma * sqdist x y)) (rows Y)) (rows X)\<rparr>)"

subsection \<open>Kernel regression: \<^verbatim>\<open>batch_bias\<close> and \<^verbatim>\<open>transform\<close>\<close>

text \<open>The branch \<^verbatim>\<open>batch_size is None\<close> of \<^verbatim>\<open>batch_bias\<close> (lines 443 to 448).\<close>

definition unbatched_bias :: "matrix \<Rightarrow> matrix \<Rightarrow> matrix \<Rightarrow> real \<Rightarrow> error + matrix" where
  "unbatched_bias curr_ds match_ds bias sigma =
     ebind (rbf_kernel curr_ds match_ds (0.5 * sigma)) (\<lambda>weights.
     ebind (np_dot weights bias) (\<lambda>num.
       np_divide num (tile_T (np_sum_axis1 weights) (ncols curr_ds))))"

text \<open>
  One round of the \<^verbatim>\<open>while\<close> loop (lines 454 to 460), without the increment of
  \<^verbatim>\<open>base\<close>. \<^verbatim>\<open>range(a, b)\<close> is the list \<open>[a..b - 1]\<close>.
\<close>

definition batch_round ::
  "matrix \<Rightarrow> matrix \<Rightarrow> matrix \<Rightarrow> int \<Rightarrow> real \<Rightarrow> int \<Rightarrow> matrix \<times> real list
     \<Rightarrow> error + matrix \<times> real list"
where
  "batch_round curr_ds match_ds bias batch_size sigma base = (\<lambda>(avg_bias, denom).
     let batch_idx = [base..min (base + batch_size) (int (shape0 match_ds)) - 1] in
     ebind (np_take_rows match_ds batch_idx) (\<lambda>match_batch.
     ebind (rbf_kernel curr_ds match_batch (0.5 * sigma)) (\<lambda>weights.
     ebind (np_take_rows bias batch_idx) (\<lambda>bias_batch.
     ebind (np_dot weights bias_batch) (\<lambda>prod.
     ebind (np_add avg_bias prod) (\<lambda>avg_bias'.
     ebind (vec_add denom (np_sum_axis1 weights)) (\<lambda>denom'.
       Inr (avg_bias', denom'))))))))"

text \<open>
  The \<^verbatim>\<open>while\<close> loop. With a batch size below one \<^verbatim>\<open>base\<close> never grows and the loop
  does not end: the result \<open>None\<close>.
\<close>

partial_function (option) batch_loop ::
  "matrix \<Rightarrow> matrix \<Rightarrow> matrix \<Rightarrow> int \<Rightarrow> real \<Rightarrow> int \<Rightarrow> matrix \<times> real list
     \<Rightarrow> (error + matrix \<times> real list) option"
where
  "batch_loop curr_ds match_ds bias batch_size sigma base acc =
     (if base < int (shape0 match_ds) then
        (case batch_round curr_ds match_ds bias batch_size sigma base acc of
           Inl e \<Rightarrow> Some (Inl e)
         | Inr acc' \<Rightarrow>
             batch_loop curr_ds match_ds bias batch_size sigma (base + batch_size) acc')
      else Some (Inr acc))"

definition batch_bias ::
  "matrix \<Rightarrow> matrix \<Rightarrow> matrix \<Rightarrow> int option \<Rightarrow> real \<Rightarrow> (error + matrix) option"
where
  "batch_bias curr_ds match_ds bias batch_size sigma =
     (case batch_size of
        None \<Rightarrow> Some (unbatched_bias curr_ds match_ds bias sigma)
      | Some bs \<Rightarrow>
          Option.bind
            (batch_loop curr_ds match_ds bias bs sigma 0
               (np_zeros (shape0 curr_ds) (ncols curr_ds), replicate (shape0 curr_ds) 0))
            (\<lambda>r. Some (ebind r (\<lambda>(avg_bias, denom).
                     np_divide avg_bias (tile_T denom (ncols curr_ds))))))"

text \<open>
  \<^verbatim>\<open>transform\<close>. With \<^verbatim>\<open>cn\<close> set the source converts between sparse and dense
  storage; the model has one kind of matrix, so the flag changes nothing.
\<close>

definition transform ::
  "matrix \<Rightarrow> matrix \<Rightarrow> int list \<Rightarrow> int list \<Rightarrow> real \<Rightarrow> bool \<Rightarrow> int option
     \<Rightarrow> (error + matrix) option"
where
  "transform curr_ds curr_ref ds_ind ref_ind sigma cn batch_size =
     (case np_take_rows curr_ds ds_ind of
        Inl e \<Rightarrow> Some (Inl e)
      | Inr match_ds \<Rightarrow>
          (case np_take_rows curr_ref ref_ind of
             Inl e \<Rightarrow> Some (Inl e)
           | Inr match_ref \<Rightarrow>
               (case np_subtract match_ref match_ds of
                  Inl e \<Rightarrow> Some (Inl e)
                | Inr bias \<Rightarrow> batch_bias curr_ds match_ds bias batch_size sigma)))"


subsection \<open>The kernel regression in closed form\<close>











subsection \<open>Assembly: \<^verbatim>\<open>assemble\<close>\<close>

text \<open>
  Functions that may raise and may also not return (the loop of \<open>batch_bias\<close>): \<open>None\<close>
  is a run that does not end, \<open>Some (Inl e)\<close> an exception, \<open>Some (Inr x)\<close> a result.
\<close>

type_synonym 'a result = "(error + 'a) option"

fun rbind :: "'a result \<Rightarrow> ('a \<Rightarrow> 'b result) \<Rightarrow> 'b result" where
  "rbind None f = None"
| "rbind (Some (Inl e)) f = Some (Inl e)"
| "rbind (Some (Inr x)) f = f x"

fun rfold :: "('a \<Rightarrow> 's \<Rightarrow> 's result) \<Rightarrow> 'a list \<Rightarrow> 's \<Rightarrow> 's result" where
  "rfold f [] s = Some (Inr s)"
| "rfold f (x # xs) s = rbind (f x s) (rfold f xs)"

text \<open>Reading \<^verbatim>\<open>xs[i]\<close> for an index that is not negative.\<close>

definition py_get :: "'a list \<Rightarrow> nat \<Rightarrow> error + 'a" where
  "py_get xs i = (if i < length xs then Inr (xs ! i) else Inl IndexError)"

text \<open>
  The shared mutable structure of the loop: the coordinate matrices, the optional
  expression matrices, the panoramas and the visit counters \<^verbatim>\<open>ds_assembled\<close>.
\<close>

record asm_state =
  s_datasets :: "matrix list"
  s_expr_datasets :: "matrix list option"
  s_panoramas :: "nat list list"
  s_ds_assembled :: "nat \<rightharpoonup> nat"

text \<open>Lines 510 to 512 (and 513 to 515): the counter of a dataset, created at zero, plus one.\<close>

definition visit :: "(nat \<rightharpoonup> nat) \<Rightarrow> nat \<Rightarrow> (nat \<rightharpoonup> nat)" where
  "visit c i =
     (let c' = (if c i = None then c(i \<mapsto> 0) else c)
      in c'(i \<mapsto> the (c' i) + 1))"

text \<open>
  One round of the loop that remaps the matches of the dataset \<open>x\<close> into the
  concatenation of a panorama (lines 540 to 545, and 571 to 576 with \<open>j\<close> for \<open>i\<close>).
  Python iterates the match set in an order of its own; the model takes the sorted
  order.
\<close>

definition remap_step ::
  "matches \<Rightarrow> matrix list \<Rightarrow> nat \<Rightarrow> nat \<Rightarrow> (int \<times> int) list \<times> int
     \<Rightarrow> error + (int \<times> int) list \<times> int"
where
  "remap_step matches datasets x p = (\<lambda>(match, base).
     let match' =
           (if x < p \<and> matches (x, p) \<noteq> None
            then match @ map (\<lambda>(a, b). (a, b + base)) (sorted_list_of_set (the (matches (x, p))))
            else if x > p \<and> matches (p, x) \<noteq> None
            then match @ map (\<lambda>(a, b). (b, a + base)) (sorted_list_of_set (the (matches (p, x))))
            else match)
     in ebind (py_get datasets p) (\<lambda>ds_p. Inr (match', base + int (shape0 ds_p))))"

text \<open>
  The correction of one block of the expression matrices against a panorama, with the
  index lists of the coordinate matrices (lines 555 to 560, with \<^verbatim>\<open>cn=True\<close>).
\<close>

definition correct_expr ::
  "real \<Rightarrow> int option \<Rightarrow> matrix list \<Rightarrow> nat \<Rightarrow> nat list \<Rightarrow> int list \<Rightarrow> int list
     \<Rightarrow> matrix list result"
where
  "correct_expr sigma batch_size expr x pan ds_ind ref_ind =
     rbind (Some (py_get expr x)) (\<lambda>curr_ds.
     rbind (Some (emap (py_get expr) pan)) (\<lambda>members.
     rbind (Some (np_concatenate members)) (\<lambda>curr_ref.
     rbind (transform curr_ds curr_ref ds_ind ref_ind sigma True batch_size) (\<lambda>bias.
     rbind (Some (np_add curr_ds bias)) (\<lambda>corrected.
       Some (Inr (expr[x := corrected])))))))"

text \<open>
  ``Map dataset i to panorama j'' (lines 535 to 562), and with \<open>j\<close> for \<open>i\<close> ``Map dataset
  j to panorama i'' (lines 566 to 593): \<open>x\<close> is the dataset that is corrected, \<open>p_ref\<close>
  the position of the reference panorama. \<^verbatim>\<open>if expr_datasets:\<close> holds for a list that is
  not empty.
\<close>

definition map_to_panorama ::
  "matches \<Rightarrow> real \<Rightarrow> int option \<Rightarrow> nat \<Rightarrow> nat \<Rightarrow> asm_state \<Rightarrow> asm_state result"
where
  "map_to_panorama matches sigma batch_size x p_ref s =
     (let datasets = s_datasets s; pan = s_panoramas s ! p_ref in
      rbind (Some (py_get datasets x)) (\<lambda>curr_ds.
      rbind (Some (emap (py_get datasets) pan)) (\<lambda>members.
      rbind (Some (np_concatenate members)) (\<lambda>curr_ref.
      rbind (Some (efold (remap_step matches datasets x) pan ([], 0))) (\<lambda>(match, base).
        let ds_ind = map fst match; ref_ind = map snd match in
        rbind (transform curr_ds curr_ref ds_ind ref_ind sigma False batch_size) (\<lambda>bias.
        rbind (Some (np_add curr_ds bias)) (\<lambda>corrected.
        rbind (case s_expr_datasets s of
                 None \<Rightarrow> Some (Inr None)
               | Some expr \<Rightarrow>
                   if expr \<noteq> []
                   then rbind (correct_expr sigma batch_size expr x pan ds_ind ref_ind)
                          (\<lambda>expr'. Some (Inr (Some expr')))
                   else Some (Inr (Some expr))) (\<lambda>expr'.
          Some (Inr (s\<lparr>s_datasets := datasets[x := corrected],
                       s_expr_datasets := expr',
                       s_panoramas := (s_panoramas s)[p_ref := pan @ [x]]\<rparr>))))))))))"

text \<open>
  Lines 601 to 608: the offset of the dataset \<open>x\<close> in the concatenation of its panorama.
  The datasets of the panorama have been read before, so the reads cannot raise.
\<close>

definition base_of :: "matrix list \<Rightarrow> nat list \<Rightarrow> nat \<Rightarrow> int" where
  "base_of datasets pan x =
     sum_list (map (\<lambda>p. int (shape0 (datasets ! p))) (takeWhile (\<lambda>p. p \<noteq> x) pan))"

text \<open>One round of the first loop over the matches of a merge (lines 613 to 620).\<close>

definition merge_match_i ::
  "matches \<Rightarrow> matrix list \<Rightarrow> nat \<Rightarrow> nat \<Rightarrow> int \<Rightarrow> nat \<Rightarrow> (int \<times> int) list \<times> int
     \<Rightarrow> error + (int \<times> int) list \<times> int"
where
  "merge_match_i matches datasets i j base_j p = (\<lambda>(match, base).
     let match' =
           (if p = i \<and> j < p \<and> matches (j, p) \<noteq> None
            then match @ map (\<lambda>(a, b). (b + base, a + base_j))
                           (sorted_list_of_set (the (matches (j, p))))
            else if p = i \<and> j > p \<and> matches (p, j) \<noteq> None
            then match @ map (\<lambda>(a, b). (a + base, b + base_j))
                           (sorted_list_of_set (the (matches (p, j))))
            else match)
     in ebind (py_get datasets p) (\<lambda>ds_p. Inr (match', base + int (shape0 ds_p))))"

text \<open>One round of the second loop (lines 622 to 629).\<close>

definition merge_match_j ::
  "matches \<Rightarrow> matrix list \<Rightarrow> nat \<Rightarrow> nat \<Rightarrow> int \<Rightarrow> nat \<Rightarrow> (int \<times> int) list \<times> int
     \<Rightarrow> error + (int \<times> int) list \<times> int"
where
  "merge_match_j matches datasets i j base_i p = (\<lambda>(match, base).
     let match' =
           (if p = j \<and> i < p \<and> matches (i, p) \<noteq> None
            then match @ map (\<lambda>(a, b). (a + base_i, b + base))
                           (sorted_list_of_set (the (matches (i, p))))
            else if p = j \<and> i > p \<and> matches (p, i) \<noteq> None
            then match @ map (\<lambda>(a, b). (b + base_i, a + base))
                           (sorted_list_of_set (the (matches (p, i))))
            else match)
     in ebind (py_get datasets p) (\<lambda>ds_p. Inr (match', base + int (shape0 ds_p))))"

text \<open>
  One round of the loop that writes the corrected block back (lines 639 to 642, and
  655 to 658): the dataset \<open>p\<close> becomes the slice \<^verbatim>\<open>curr_ds[base:(base + n_cells), :]\<close>.
\<close>

definition write_back :: "matrix \<Rightarrow> nat \<Rightarrow> matrix list \<times> nat \<Rightarrow> error + matrix list \<times> nat" where
  "write_back curr_ds p = (\<lambda>(datasets, base).
     ebind (py_get datasets p) (\<lambda>ds_p.
       let n_cells = shape0 ds_p in
       Inr (datasets[p := \<lparr>ncols = ncols curr_ds,
                            rows = take n_cells (drop base (rows curr_ds))\<rparr>],
            base + n_cells)))"

text \<open>
  The correction of the expression matrices of a whole panorama, in the \<^verbatim>\<open>realign\<close>
  mode (lines 647 to 658): concatenate, transform, add, write back.
\<close>

definition realign_expr ::
  "real \<Rightarrow> int option \<Rightarrow> matrix list \<Rightarrow> nat list \<Rightarrow> nat list \<Rightarrow> int list \<Rightarrow> int list
     \<Rightarrow> matrix list result"
where
  "realign_expr sigma batch_size expr pan_i pan_j ds_ind ref_ind =
     rbind (Some (emap (py_get expr) pan_i)) (\<lambda>members_i.
     rbind (Some (np_concatenate members_i)) (\<lambda>curr_ds.
     rbind (Some (emap (py_get expr) pan_j)) (\<lambda>members_j.
     rbind (Some (np_concatenate members_j)) (\<lambda>curr_ref.
     rbind (transform curr_ds curr_ref ds_ind ref_ind sigma True batch_size) (\<lambda>bias.
     rbind (Some (np_add curr_ds bias)) (\<lambda>curr_ds'.
     rbind (Some (efold (write_back curr_ds') pan_i (expr, 0))) (\<lambda>(expr', base).
       Some (Inr expr'))))))))"

text \<open>
  The last branch, ``Merge two panoramas together'' (lines 597 to 663). It runs whenever
  both datasets are in a panorama, also when that is the same panorama; only the merge
  of the two lists at its end is guarded by \<^verbatim>\<open>panoramas_i[0] != panoramas_j[0]\<close>.
\<close>

definition merge_step ::
  "matches \<Rightarrow> real \<Rightarrow> int option \<Rightarrow> bool \<Rightarrow> nat \<Rightarrow> nat \<Rightarrow> nat \<Rightarrow> nat \<Rightarrow> asm_state
     \<Rightarrow> asm_state result"
where
  "merge_step matches sigma batch_size realign i j p_i p_j s =
     (let datasets = s_datasets s;
          pan_i = s_panoramas s ! p_i;
          pan_j = s_panoramas s ! p_j
      in
      rbind (Some (emap (py_get datasets) pan_i)) (\<lambda>members_i.
      rbind (Some (np_concatenate members_i)) (\<lambda>curr_ds.
      rbind (Some (emap (py_get datasets) pan_j)) (\<lambda>members_j.
      rbind (Some (np_concatenate members_j)) (\<lambda>curr_ref.
        let base_i = base_of datasets pan_i i;
            base_j = base_of datasets pan_j j
        in
        rbind (Some (efold (merge_match_i matches datasets i j base_j) pan_i ([], 0)))
          (\<lambda>(match1, base1).
        rbind (Some (efold (merge_match_j matches datasets i j base_i) pan_j (match1, 0)))
          (\<lambda>(match, base2).
          let ds_ind = map fst match; ref_ind = map snd match in
          rbind (transform curr_ds curr_ref ds_ind ref_ind sigma False batch_size) (\<lambda>bias.
          rbind (Some (np_add curr_ds bias)) (\<lambda>curr_ds'.
          rbind (Some (efold (write_back curr_ds') pan_i (datasets, 0)))
            (\<lambda>(datasets', base3).
          rbind (case s_expr_datasets s of
                   None \<Rightarrow> Some (Inr None)
                 | Some expr \<Rightarrow>
                     if realign
                     then rbind (realign_expr sigma batch_size expr pan_i pan_j ds_ind ref_ind)
                            (\<lambda>expr'. Some (Inr (Some expr')))
                     else Some (Inr (Some expr))) (\<lambda>expr'.
            Some (Inr (s\<lparr>s_datasets := datasets',
                         s_expr_datasets := expr',
                         s_panoramas := merge_panoramas (s_panoramas s) p_i p_j\<rparr>)))))))))))))"

text \<open>
  One round of the loop of \<^verbatim>\<open>assemble\<close> for the edge \<open>(i, j)\<close> (lines 509 to 663).
  Printing and the plot of \<^verbatim>\<open>view_match\<close> are left out.
\<close>

definition assemble_step ::
  "matches \<Rightarrow> real \<Rightarrow> int option \<Rightarrow> bool \<Rightarrow> nat \<times> nat \<Rightarrow> asm_state \<Rightarrow> asm_state result"
where
  "assemble_step matches sigma batch_size realign = (\<lambda>(i, j) s0.
     let ds_assembled = visit (visit (s_ds_assembled s0) i) j;
         s = s0\<lparr>s_ds_assembled := ds_assembled\<rparr>
     in
     if the (ds_assembled i) > 3 \<and> the (ds_assembled j) > 3 then Some (Inr s)
     else
       let panoramas_i = find_panoramas (s_panoramas s) i in
       if \<not> length panoramas_i \<le> 1 then Some (Inl AssertionError)
       else
         let panoramas_j = find_panoramas (s_panoramas s) j in
         if \<not> length panoramas_j \<le> 1 then Some (Inl AssertionError)
         else if length panoramas_i = 0 \<and> length panoramas_j = 0 then
           rbind (Some (py_get (s_datasets s) i)) (\<lambda>ds_i.
           rbind (Some (py_get (s_datasets s) j)) (\<lambda>ds_j.
             let (i', j') = (if shape0 ds_i < shape0 ds_j then (j, i) else (i, j)) in
             map_to_panorama matches sigma batch_size j' (length (s_panoramas s))
               (s\<lparr>s_panoramas := s_panoramas s @ [[i']]\<rparr>)))
         else if length panoramas_i = 0 then
           map_to_panorama matches sigma batch_size i (hd panoramas_j) s
         else if length panoramas_j = 0 then
           map_to_panorama matches sigma batch_size j (hd panoramas_i) s
         else
           merge_step matches sigma batch_size realign i j (hd panoramas_i) (hd panoramas_j) s)"

text \<open>
  \<^verbatim>\<open>assemble\<close>: a single dataset is returned as it is; otherwise the edges of
  \<^verbatim>\<open>find_alignments\<close> are processed in their order. The source returns \<^verbatim>\<open>datasets\<close> and
  has changed \<^verbatim>\<open>expr_datasets\<close> in place; the model returns the final state.
\<close>

definition assemble ::
  "searcher \<Rightarrow> matrix list \<Rightarrow> nat \<Rightarrow> real \<Rightarrow> bool \<Rightarrow> real \<Rightarrow> matrix list option \<Rightarrow> int option
     \<Rightarrow> bool \<Rightarrow> asm_state result"
where
  "assemble E datasets knn sigma approx alpha expr_datasets batch_size realign =
     (let s0 = \<lparr>s_datasets = datasets, s_expr_datasets = expr_datasets,
                s_panoramas = [], s_ds_assembled = Map.empty\<rparr>
      in
      if length datasets = 1 then Some (Inr s0)
      else
        rbind (Some (find_alignments E datasets knn approx alpha False))
          (\<lambda>(alignments, matches).
             rfold (assemble_step matches sigma batch_size realign) alignments s0))"


text \<open>
  A state of the loop of \<^verbatim>\<open>assemble\<close> over four datasets of one point each, as it is
  after the edges \<open>(0, 2)\<close> and \<open>(1, 2)\<close>: the datasets 0, 2 and 1 form one panorama, the
  dataset 3 is in none. \<open>ex_state_after\<close> is the state after the edge \<open>(0, 1)\<close>;
  \<open>ex_capped\<close> is a state whose counters for 0 and 1 have reached the cap.
\<close>

definition ex_points :: "matrix list" where
  "ex_points = [\<lparr>ncols = 1, rows = [[0]]\<rparr>, \<lparr>ncols = 1, rows = [[1]]\<rparr>,
                \<lparr>ncols = 1, rows = [[3]]\<rparr>, \<lparr>ncols = 1, rows = [[7]]\<rparr>]"

definition ex_matches :: matches where
  "ex_matches = [(0, 1) \<mapsto> {(0, 0)}, (0, 2) \<mapsto> {(0, 0)}, (1, 2) \<mapsto> {(0, 0)}]"



definition ex_capped :: asm_state where
  "ex_capped = \<lparr>s_datasets = ex_points, s_expr_datasets = None,
                 s_panoramas = [[0, 2, 1]], s_ds_assembled = [0 \<mapsto> 3, 2 \<mapsto> 2, 1 \<mapsto> 3]\<rparr>"


section \<open>Properties\<close>

subsection \<open>The error monad\<close>

lemma ebind_eq_Inr:
  "ebind m f = Inr y \<longleftrightarrow> (\<exists>x. m = Inr x \<and> f x = Inr y)"
  by (cases m) auto

lemma ebind_eq_Inl:
  "ebind m f = Inl e \<longleftrightarrow> m = Inl e \<or> (\<exists>x. m = Inr x \<and> f x = Inl e)"
  by (cases m) auto

subsection \<open>Mutual nearest neighbours\<close>

text \<open>
  C3. Every pair \<open>(a, b)\<close> of the mutual match set that \<open>mnn\<close> returns for the datasets
  \<open>A\<close> and \<open>B\<close> is in the directional match set from \<open>A\<close> to \<open>B\<close>, and \<open>(b, a)\<close> is in the
  directional match set from \<open>B\<close> to \<open>A\<close>; and \<open>mnn\<close> returns whenever both searches do.
\<close>

theorem mnn_mutual:
  "(\<forall>mutual a b. mnn E A B k approx = Inr mutual \<and> (a, b) \<in> mutual \<longrightarrow>
      (\<exists>m1 m2. directional E approx A B k = Inr m1 \<and> directional E approx B A k = Inr m2
         \<and> (a, b) \<in> m1 \<and> (b, a) \<in> m2))
   \<and> (\<forall>m1 m2. directional E approx A B k = Inr m1 \<and> directional E approx B A k = Inr m2 \<longrightarrow>
        (\<exists>mutual. mnn E A B k approx = Inr mutual))"
  by (auto simp: mnn_def ebind_eq_Inr)

theorem mnn_mutual_witness:
  "mnn ex_searcher ex_A ex_B 1 True = Inr {(0, 0)} \<and> (0, 0) \<in> {(0::int, 0::int)}
   \<and> (\<exists>m1 m2. directional ex_searcher True ex_A ex_B 1 = Inr m1
        \<and> directional ex_searcher True ex_B ex_A 1 = Inr m2 \<and> (0, 0) \<in> m1 \<and> (0, 0) \<in> m2)"
proof -
  have "mnn ex_searcher ex_A ex_B 1 True = Inr {(0, 0)}"
    by code_simp
  then show ?thesis
    using mnn_mutual [of ex_searcher ex_A ex_B 1 True] by blast
qed

subsection \<open>Loops that may raise\<close>

lemma efold_invariant:
  assumes "efold f xs s = Inr s'" and "P s"
    and "\<And>x t t'. x \<in> set xs \<Longrightarrow> P t \<Longrightarrow> f x t = Inr t' \<Longrightarrow> P t'"
  shows "P s'"
  using assms
proof (induction xs arbitrary: s)
  case Nil
  then show ?case by simp
next
  case (Cons x xs)
  from Cons.prems(1) obtain t where t: "f x s = Inr t" and r: "efold f xs t = Inr s'"
    by (auto simp: ebind_eq_Inr)
  have "P t" using Cons.prems(2,3) t by auto
  then show ?case using Cons.IH [OF r] Cons.prems(3) by auto
qed

lemma efold_append:
  "efold f (xs @ ys) s = ebind (efold f xs s) (efold f ys)"
proof (induction xs arbitrary: s)
  case Nil
  then show ?case by simp
next
  case (Cons x xs)
  then show ?case by (cases "f x s") simp_all
qed

subsection \<open>The keys of the score table\<close>

lemma score_step_cases:
  assumes "score_step ds table k (m0, t0, p0) = Inr (m1, t1, p1)"
  shows "(m1 = m0 \<and> t1 = t0 \<and> p1 = p0
          \<and> \<not> (fst k < snd k \<and> table k \<noteq> None \<and> table (snd k, fst k) \<noteq> None))
       \<or> (\<exists>val. fst k < snd k \<and> table k \<noteq> None \<and> table (snd k, fst k) \<noteq> None
            \<and> m1 = m0(k \<mapsto> the (table k) \<inter> (\<lambda>(a, b). (b, a)) ` the (table (snd k, fst k)))
            \<and> t1 = AList.update k val t0
            \<and> val = max (real (card (fst ` (the (table k) \<inter> (\<lambda>(a, b). (b, a)) ` the (table (snd k, fst k)))))
                            / real (shape0 (ds ! fst k)))
                         (real (card (snd ` (the (table k) \<inter> (\<lambda>(a, b). (b, a)) ` the (table (snd k, fst k)))))
                            / real (shape0 (ds ! snd k)))
            \<and> shape0 (ds ! fst k) \<noteq> 0 \<and> shape0 (ds ! snd k) \<noteq> 0)"
  using assms
  by (cases k) (auto simp: score_step_def Let_def split: if_splits option.splits)

lemma score_fold_keys:
  assumes "efold (score_step ds table) xs (m0, t0, p0) = Inr (m1, t1, p1)"
  shows "distinct (map fst t0) \<longrightarrow> distinct (map fst t1)"
    and "fst ` set t1 \<subseteq> fst ` set t0 \<union> {k \<in> set xs. fst k < snd k}"
proof -
  let ?P = "\<lambda>s. (distinct (map fst t0) \<longrightarrow> distinct (map fst (fst (snd s))))
              \<and> fst ` set (fst (snd s)) \<subseteq> fst ` set t0 \<union> {k \<in> set xs. fst k < snd k}"
  have "?P (m1, t1, p1)"
  proof (rule efold_invariant [OF assms, where P = ?P])
    show "?P (m0, t0, p0)" by auto
  next
    fix x t t'
    assume x: "x \<in> set xs" and P: "?P t" and st: "score_step ds table x t = Inr t'"
    obtain a b c where t: "t = (a, b, c)" by (cases t)
    obtain a' b' c' where t': "t' = (a', b', c')" by (cases t')
    from score_step_cases [OF st [unfolded t t']]
    show "?P t'"
    proof
      assume "a' = a \<and> b' = b \<and> c' = c
        \<and> \<not> (fst x < snd x \<and> table x \<noteq> None \<and> table (snd x, fst x) \<noteq> None)"
      then show ?thesis using P t t' by simp
    next
      assume "\<exists>val. fst x < snd x \<and> table x \<noteq> None \<and> table (snd x, fst x) \<noteq> None
            \<and> a' = a(x \<mapsto> the (table x) \<inter> (\<lambda>(a, b). (b, a)) ` the (table (snd x, fst x)))
            \<and> b' = AList.update x val b
            \<and> val = max (real (card (fst ` (the (table x) \<inter> (\<lambda>(a, b). (b, a)) ` the (table (snd x, fst x)))))
                            / real (shape0 (ds ! fst x)))
                         (real (card (snd ` (the (table x) \<inter> (\<lambda>(a, b). (b, a)) ` the (table (snd x, fst x)))))
                            / real (shape0 (ds ! snd x)))
            \<and> shape0 (ds ! fst x) \<noteq> 0 \<and> shape0 (ds ! snd x) \<noteq> 0"
      then obtain val where lt: "fst x < snd x" and b': "b' = AList.update x val b" by blast
      have "fst ` set b' \<subseteq> insert x (fst ` set b)"
        unfolding b' by (simp add: AList.dom_update)
      moreover have "distinct (map fst b) \<Longrightarrow> distinct (map fst b')"
        unfolding b' by (rule AList.distinct_update)
      ultimately show ?thesis using P t t' x lt by auto
    qed
  qed
  then show "distinct (map fst t0) \<longrightarrow> distinct (map fst t1)"
    and "fst ` set t1 \<subseteq> fst ` set t0 \<union> {k \<in> set xs. fst k < snd k}" by simp_all
qed

lemma score_tables_keys:
  assumes "score_tables ds table = Inr (matches, table1, table_print)"
  shows "distinct (map fst table1)"
    and "\<forall>k \<in> fst ` set table1. fst k < snd k \<and> snd k < length ds"
  using score_fold_keys [OF assms [unfolded score_tables_def]] by auto

lemma find_alignments_unfold:
  assumes "find_alignments E ds knn approx alpha pre = Inr (al, m)"
  shows "\<exists>table1 tp. find_alignments_table E ds knn approx pre = Inr (table1, tp, m)
           \<and> distinct (map fst table1) \<and> al = alignments_of table1 alpha
           \<and> (\<forall>k \<in> fst ` set table1. fst k < snd k \<and> snd k < length ds)"
proof -
  from assms obtain table1 tp
    where t: "find_alignments_table E ds knn approx pre = Inr (table1, tp, m)"
      and al: "al = alignments_of table1 alpha"
    by (auto simp: find_alignments_def ebind_eq_Inr)
  let ?ds = "if \<not> pre then map normalize_mat ds else ds"
  from t obtain table where "score_tables ?ds table = Inr (m, table1, tp)"
    by (auto simp: find_alignments_table_def Let_def ebind_eq_Inr)
  from score_tables_keys [OF this]
  have "distinct (map fst table1)"
    and "\<forall>k \<in> fst ` set table1. fst k < snd k \<and> snd k < length ds"
    by (simp_all split: if_splits)
  then show ?thesis using t al by blast
qed

subsection \<open>Thresholding and ordering\<close>

lemma map_of_distinct_iff:
  "distinct (map fst xs) \<Longrightarrow> map_of xs k = Some v \<longleftrightarrow> (k, v) \<in> set xs"
  by (auto dest: map_of_SomeD)

lemma alignments_of_set:
  assumes "distinct (map fst table1)"
  shows "set (alignments_of table1 alpha) = {k. \<exists>val. map_of table1 k = Some val \<and> alpha < val}"
proof -
  have "set (alignments_of table1 alpha) = fst ` {x \<in> set table1. alpha < snd x}"
    by (auto simp: alignments_of_def)
  also have "\<dots> = {k. \<exists>val. (k, val) \<in> set table1 \<and> alpha < val}"
    by force
  finally show ?thesis using assms by (simp add: map_of_distinct_iff)
qed

lemma alignments_of_distinct:
  assumes "distinct (map fst table1)"
  shows "distinct (alignments_of table1 alpha)"
proof -
  have "distinct (map fst (sort_key snd table1))"
    using assms by (simp add: distinct_map)
  then have "distinct (map fst (rev (sort_key snd table1)))"
    by (simp add: rev_map[symmetric] del: rev_map)
  then show ?thesis
    unfolding alignments_of_def by (rule distinct_map_filter)
qed

lemma alignments_of_sorted:
  assumes "distinct (map fst table1)"
  shows "sorted_wrt (\<lambda>k k'. the (map_of table1 k') \<le> the (map_of table1 k))
           (alignments_of table1 alpha)"
proof -
  let ?xs = "filter (\<lambda>(k, val). val > alpha) (rev (sort_key snd table1))"
  have "sorted (map snd (sort_key snd table1))" by (rule sorted_sort_key)
  then have "sorted_wrt (\<lambda>x y. snd x \<le> snd y) (sort_key snd table1)"
    by (simp add: sorted_map)
  then have "sorted_wrt (\<lambda>x y. snd x \<ge> snd y) (rev (sort_key snd table1))"
    by (simp add: sorted_wrt_rev)
  then have s: "sorted_wrt (\<lambda>x y. snd x \<ge> snd y) ?xs"
    by (rule sorted_wrt_filter)
  have e: "the (map_of table1 (fst x)) = snd x" if "x \<in> set ?xs" for x
  proof -
    from that have "(fst x, snd x) \<in> set table1" by simp
    then have "map_of table1 (fst x) = Some (snd x)"
      using assms by (simp add: map_of_distinct_iff)
    then show ?thesis by simp
  qed
  have "sorted_wrt (\<lambda>x y. the (map_of table1 (fst x)) \<ge> the (map_of table1 (fst y))) ?xs"
    by (rule sorted_wrt_mono_rel [OF _ s]) (simp only: e)
  then show ?thesis by (simp add: alignments_of_def sorted_wrt_map)
qed

lemma filter_length_mono:
  "(\<And>x. P x \<Longrightarrow> Q x) \<Longrightarrow> length (filter P xs) \<le> length (filter Q xs)"
  by (induction xs) auto

lemma alignments_of_mono:
  assumes "alpha1 \<le> alpha2"
  shows "set (alignments_of t alpha2) \<subseteq> set (alignments_of t alpha1)"
    and "length (alignments_of t alpha2) \<le> length (alignments_of t alpha1)"
proof -
  show "set (alignments_of t alpha2) \<subseteq> set (alignments_of t alpha1)"
    using assms by (force simp: alignments_of_def)
  show "length (alignments_of t alpha2) \<le> length (alignments_of t alpha1)"
    unfolding alignments_of_def length_map using assms
    by (intro filter_length_mono) auto
qed

text \<open>The example datasets: one pair, \<open>(0, 1)\<close>, is matched in both directions.\<close>

lemma ex_normalized:
  "normalize_mat ex_A = ex_A" "normalize_mat ex_B = ex_B" "normalize_mat ex_C = ex_C"
  by (simp_all add: normalize_mat_def normalize_row_def ex_A_def ex_B_def ex_C_def)

lemma ex_score_tables:
  "case ebind (fill_tables ex_searcher [ex_A, ex_B, ex_C] 1 True) (score_tables [ex_A, ex_B, ex_C]) of
     Inr (m, t1, tp) \<Rightarrow> t1 = [((0, 1), 1)] \<and> m (0, 1) = Some {(0, 0)}
   | Inl e \<Rightarrow> False"
  by code_simp

lemma ex_find_alignments:
  assumes "alpha < 1"
  shows "\<exists>m. find_alignments ex_searcher [ex_A, ex_B, ex_C] 1 True alpha False = Inr ([(0, 1)], m)
           \<and> m (0, 1) = Some {(0, 0)}"
proof -
  obtain m t1 tp
    where e: "ebind (fill_tables ex_searcher [ex_A, ex_B, ex_C] 1 True)
                (score_tables [ex_A, ex_B, ex_C]) = Inr (m, t1, tp)"
      and t1: "t1 = [((0, 1), 1)]" and m: "m (0, 1) = Some {(0, 0)}"
    using ex_score_tables by (auto split: sum.splits)
  have "alignments_of [((0::nat, 1::nat), 1)] alpha = [(0, 1)]"
    using assms by (simp add: alignments_of_def)
  then have "find_alignments ex_searcher [ex_A, ex_B, ex_C] 1 True alpha False = Inr ([(0, 1)], m)"
    using e t1
    by (auto simp: find_alignments_def find_alignments_table_def ex_normalized ebind_eq_Inr Let_def
        simp del: One_nat_def)
  then show ?thesis using m by blast
qed

text \<open>
  C4. For every score table (a dictionary, so its keys are distinct),
  \<open>find_alignments\<close> returns exactly the pairs whose score is strictly greater than
  \<open>alpha\<close>, each once, in descending order of score; and the list it returns is the one
  computed from the score table of \<open>find_alignments_table\<close>, whose keys are distinct.
\<close>

theorem find_alignments_threshold_sorted:
  "(distinct (map fst table1) \<longrightarrow>
      set (alignments_of table1 alpha) = {k. \<exists>val. map_of table1 k = Some val \<and> alpha < val}
      \<and> distinct (alignments_of table1 alpha)
      \<and> sorted_wrt (\<lambda>k k'. the (map_of table1 k') \<le> the (map_of table1 k))
           (alignments_of table1 alpha))
   \<and> (\<forall>al m. find_alignments E ds knn approx alpha pre = Inr (al, m) \<longrightarrow>
        (\<exists>t1 tp. find_alignments_table E ds knn approx pre = Inr (t1, tp, m)
           \<and> distinct (map fst t1) \<and> al = alignments_of t1 alpha))"
proof (intro conjI impI allI)
  assume d: "distinct (map fst table1)"
  show "set (alignments_of table1 alpha) = {k. \<exists>val. map_of table1 k = Some val \<and> alpha < val}"
    by (rule alignments_of_set [OF d])
  show "distinct (alignments_of table1 alpha)"
    by (rule alignments_of_distinct [OF d])
  show "sorted_wrt (\<lambda>k k'. the (map_of table1 k') \<le> the (map_of table1 k))
          (alignments_of table1 alpha)"
    by (rule alignments_of_sorted [OF d])
next
  fix al m
  assume "find_alignments E ds knn approx alpha pre = Inr (al, m)"
  from find_alignments_unfold [OF this]
  show "\<exists>t1 tp. find_alignments_table E ds knn approx pre = Inr (t1, tp, m)
           \<and> distinct (map fst t1) \<and> al = alignments_of t1 alpha"
    by blast
qed

theorem find_alignments_threshold_sorted_witness:
  "distinct (map fst ex_scores)
   \<and> alignments_of ex_scores (1 / 10) = [(1, 2), (1, 3), (0, 1)]
   \<and> set (alignments_of ex_scores (1 / 10))
       = {k. \<exists>val. map_of ex_scores k = Some val \<and> 1 / 10 < val}
   \<and> (\<exists>m. find_alignments ex_searcher [ex_A, ex_B, ex_C] 1 True (1 / 10) False = Inr ([(0, 1)], m)
        \<and> (\<exists>t1 tp. find_alignments_table ex_searcher [ex_A, ex_B, ex_C] 1 True False = Inr (t1, tp, m)
              \<and> distinct (map fst t1) \<and> [(0, 1)] = alignments_of t1 (1 / 10)))"
proof -
  have d: "distinct (map fst ex_scores)"
    by (simp add: ex_scores_def)
  have a: "alignments_of ex_scores (1 / 10) = [(1, 2), (1, 3), (0, 1)]"
    by (simp add: ex_scores_def alignments_of_def)
  obtain m where m: "find_alignments ex_searcher [ex_A, ex_B, ex_C] 1 True (1 / 10) False
      = Inr ([(0, 1)], m)"
    using ex_find_alignments [of "1 / 10"] by auto
  show ?thesis
    using find_alignments_threshold_sorted
      [of ex_scores "1 / 10" ex_searcher "[ex_A, ex_B, ex_C]" 1 True False] d a m
    by blast
qed

text \<open>
  C8. For a fixed score table, lowering \<open>alpha\<close> cannot remove an edge: for
  \<open>alpha1 \<le> alpha2\<close> every edge returned with \<open>alpha2\<close> is returned with \<open>alpha1\<close>, and
  the number of returned edges does not decrease. The same holds for the results of
  \<open>find_alignments\<close> on the same datasets.
\<close>

theorem find_alignments_alpha_monotone:
  assumes "alpha1 \<le> alpha2"
  shows "set (alignments_of table1 alpha2) \<subseteq> set (alignments_of table1 alpha1)
     \<and> length (alignments_of table1 alpha2) \<le> length (alignments_of table1 alpha1)
     \<and> (\<forall>al2 m. find_alignments E ds knn approx alpha2 pre = Inr (al2, m) \<longrightarrow>
          (\<exists>al1. find_alignments E ds knn approx alpha1 pre = Inr (al1, m)
             \<and> set al2 \<subseteq> set al1 \<and> length al2 \<le> length al1))"
proof (intro conjI allI impI)
  show "set (alignments_of table1 alpha2) \<subseteq> set (alignments_of table1 alpha1)"
    by (rule alignments_of_mono(1) [OF assms])
  show "length (alignments_of table1 alpha2) \<le> length (alignments_of table1 alpha1)"
    by (rule alignments_of_mono(2) [OF assms])
next
  fix al2 m
  assume "find_alignments E ds knn approx alpha2 pre = Inr (al2, m)"
  then obtain t1 tp
    where t: "find_alignments_table E ds knn approx pre = Inr (t1, tp, m)"
      and al2: "al2 = alignments_of t1 alpha2"
    by (auto simp: find_alignments_def ebind_eq_Inr)
  have "find_alignments E ds knn approx alpha1 pre = Inr (alignments_of t1 alpha1, m)"
    using t by (simp add: find_alignments_def)
  then show "\<exists>al1. find_alignments E ds knn approx alpha1 pre = Inr (al1, m)
             \<and> set al2 \<subseteq> set al1 \<and> length al2 \<le> length al1"
    using alignments_of_mono [OF assms, of t1] al2 by blast
qed

theorem find_alignments_alpha_monotone_witness:
  "(1 / 10 :: real) \<le> 1 / 2
   \<and> alignments_of ex_scores (1 / 2) = [(1, 2)]
   \<and> alignments_of ex_scores (1 / 10) = [(1, 2), (1, 3), (0, 1)]
   \<and> set (alignments_of ex_scores (1 / 2)) \<subseteq> set (alignments_of ex_scores (1 / 10))
   \<and> length (alignments_of ex_scores (1 / 2)) \<le> length (alignments_of ex_scores (1 / 10))
   \<and> (\<exists>m al1. find_alignments ex_searcher [ex_A, ex_B, ex_C] 1 True (1 / 2) False = Inr ([(0, 1)], m)
        \<and> find_alignments ex_searcher [ex_A, ex_B, ex_C] 1 True (1 / 10) False = Inr (al1, m)
        \<and> set [(0, 1)] \<subseteq> set al1)"
proof -
  have le: "(1 / 10 :: real) \<le> 1 / 2" by simp
  have a2: "alignments_of ex_scores (1 / 2) = [(1, 2)]"
    by (simp add: ex_scores_def alignments_of_def)
  have a1: "alignments_of ex_scores (1 / 10) = [(1, 2), (1, 3), (0, 1)]"
    by (simp add: ex_scores_def alignments_of_def)
  obtain m where m: "find_alignments ex_searcher [ex_A, ex_B, ex_C] 1 True (1 / 2) False
      = Inr ([(0, 1)], m)"
    using ex_find_alignments [of "1 / 2"] by auto
  show ?thesis
    using find_alignments_alpha_monotone
      [OF le, of ex_scores ex_searcher "[ex_A, ex_B, ex_C]" 1 True False] le a1 a2 m
    by blast
qed

subsection \<open>The interval trees of \<^verbatim>\<open>fill_table\<close>\<close>

lemma itree_get_Cons:
  "itree_get (x # t) r =
     (if fst x \<le> r \<and> r < fst (snd x) then x # itree_get t r else itree_get t r)"
  by (cases x) (auto simp: itree_get_def)

lemma itree_get_outside:
  assumes "\<forall>(b, e, d) \<in> set t. e \<le> pos" and "pos \<le> r"
  shows "itree_get t r = []"
  using assms by (auto simp: itree_get_def filter_empty_conv)

lemma itree_step_inv:
  assumes inv: "itrees_inv ds base_ds n s" and n: "n < length ds" and pos: "0 < shape0 (ds ! n)"
  shows "\<exists>s'. itree_step ds base_ds n s = Inr s' \<and> itrees_inv ds base_ds (Suc n) s'"
proof -
  obtain t1 t2 pos where s: "s = (t1, t2, pos)" by (cases s)
  let ?c = "int (shape0 (ds ! n))"
  let ?x1 = "(pos, pos + ?c, base_ds + n)" and ?x2 = "(pos, pos + ?c, pos)"
  from inv s have p: "pos = int (sum_list (map shape0 (take n ds)))"
    and i1: "\<forall>(b, e, d) \<in> set t1. 0 \<le> b \<and> b < e \<and> e \<le> pos \<and> (\<exists>k<n. d = base_ds + k) \<and> (b, e, b) \<in> set t2"
    and i2: "\<forall>(b, e, d) \<in> set t2. 0 \<le> b \<and> b < e \<and> e \<le> pos \<and> d = b"
    and i3: "\<forall>r. 0 \<le> r \<and> r < pos \<longrightarrow> length (itree_get t1 r) = 1 \<and> length (itree_get t2 r) = 1"
    by (auto simp: itrees_inv_def)
  have c: "0 < ?c" using pos by simp
  have n1: "?x1 \<notin> set t1" using i1 c by fastforce
  have n2: "?x2 \<notin> set t2" using i2 c by fastforce
  have step: "itree_step ds base_ds n s = Inr (?x1 # t1, ?x2 # t2, pos + ?c)"
    using c n1 n2 by (simp add: s itree_step_def itree_set_def Let_def List.insert_def)
  have pos0: "0 \<le> pos" using p by simp
  have p': "pos + ?c = int (sum_list (map shape0 (take (Suc n) ds)))"
    using p n by (simp add: take_Suc_conv_app_nth)
  have e1: "\<forall>(b, e, d) \<in> set t1. e \<le> pos" using i1 by auto
  have e2: "\<forall>(b, e, d) \<in> set t2. e \<le> pos" using i2 by auto
  have g: "length (itree_get (?x1 # t1) r) = 1 \<and> length (itree_get (?x2 # t2) r) = 1"
    if r: "0 \<le> r" "r < pos + ?c" for r
  proof (cases "r < pos")
    case True
    then show ?thesis using i3 r by (simp add: itree_get_Cons)
  next
    case False
    then have "pos \<le> r" by simp
    then show ?thesis
      using itree_get_outside [OF e1] itree_get_outside [OF e2] r by (simp add: itree_get_Cons)
  qed
  have j1: "\<forall>(b, e, d) \<in> set (?x1 # t1). 0 \<le> b \<and> b < e \<and> e \<le> pos + ?c
      \<and> (\<exists>k<Suc n. d = base_ds + k) \<and> (b, e, b) \<in> set (?x2 # t2)"
    using i1 c pos0 by (auto simp: less_Suc_eq) 
  have j2: "\<forall>(b, e, d) \<in> set (?x2 # t2). 0 \<le> b \<and> b < e \<and> e \<le> pos + ?c \<and> d = b"
    using i2 c pos0 by auto
  have "itrees_inv ds base_ds (Suc n) (?x1 # t1, ?x2 # t2, pos + ?c)"
    unfolding itrees_inv_def prod.case using p' j1 j2 g by blast
  then show ?thesis using step by blast
qed

lemma build_itrees_prefix:
  assumes "n \<le> length ds" and "\<forall>k<n. 0 < shape0 (ds ! k)"
  shows "\<exists>s. efold (itree_step ds base_ds) [0..<n] ([], [], 0) = Inr s \<and> itrees_inv ds base_ds n s"
  using assms
proof (induction n)
  case 0
  then show ?case by (simp add: itrees_inv_def itree_get_def)
next
  case (Suc n)
  then obtain s where s: "efold (itree_step ds base_ds) [0..<n] ([], [], 0) = Inr s"
    and inv: "itrees_inv ds base_ds n s" by auto
  from itree_step_inv [OF inv] Suc.prems
  obtain s' where "itree_step ds base_ds n s = Inr s'" "itrees_inv ds base_ds (Suc n) s'"
    by auto
  then show ?case using s by (simp add: efold_append)
qed

lemma build_itrees_inv:
  assumes "\<forall>d \<in> set ds. 0 < shape0 d"
  shows "\<exists>s. build_itrees ds base_ds = Inr s \<and> itrees_inv ds base_ds (length ds) s"
  unfolding build_itrees_def using assms by (intro build_itrees_prefix) auto

lemma length_one_hd: "length xs = 1 \<Longrightarrow> xs = [hd xs]"
  by (cases xs) auto

lemma itrees_lookup:
  assumes inv: "itrees_inv ds base_ds n (t1, t2, pos)" and r: "0 \<le> r" "r < pos"
  shows "\<exists>b e k. itree_get t1 r = [(b, e, base_ds + k)] \<and> itree_get t2 r = [(b, e, b)]
           \<and> k < n \<and> b \<le> r \<and> r < e"
proof -
  from inv r have l1: "length (itree_get t1 r) = 1" and l2: "length (itree_get t2 r) = 1"
    by (auto simp: itrees_inv_def)
  obtain b e d where x: "itree_get t1 r = [(b, e, d)]"
    using length_one_hd [OF l1] by (cases "hd (itree_get t1 r)") auto
  then have m: "(b, e, d) \<in> set t1" and c: "b \<le> r" "r < e"
    using filter_eq_ConsD [of "\<lambda>(b, e, d). b \<le> r \<and> r < e" t1 "(b, e, d)" "[]"]
    by (auto simp: itree_get_def)
  from inv m obtain k where k: "k < n" "d = base_ds + k" and m2: "(b, e, b) \<in> set t2"
    by (auto simp: itrees_inv_def)
  from m2 c have "(b, e, b) \<in> set (itree_get t2 r)" by (simp add: itree_get_def)
  then have "itree_get t2 r = [(b, e, b)]"
    using length_one_hd [OF l2] by (cases "itree_get t2 r") auto
  then show ?thesis using x k c by blast
qed

lemma efold_total:
  assumes "\<And>x s. x \<in> set xs \<Longrightarrow> \<exists>s'. f x s = Inr s'"
  shows "\<exists>s'. efold f xs s = Inr s'"
  using assms
proof (induction xs arbitrary: s)
  case Nil
  then show ?case by simp
next
  case (Cons x xs)
  then obtain t where "f x s = Inr t" by (meson list.set_intros(1))
  then show ?case using Cons by simp
qed

lemma store_match_ok:
  assumes inv: "itrees_inv ds base_ds n (t1, t2, pos)" and r: "0 \<le> r" "r < pos"
  shows "\<exists>table'. store_match i t1 t2 (d, r) table = Inr table'"
proof -
  from itrees_lookup [OF inv r] obtain b e k
    where "itree_get t1 r = [(b, e, base_ds + k)]" "itree_get t2 r = [(b, e, b)]" "b \<le> r"
    by blast
  then show ?thesis by (simp add: store_match_def Let_def)
qed

lemma store_match_result:
  assumes "store_match i t1 t2 (d, r) table = Inr table'"
  shows "\<exists>j l. table' = table((i, j) \<mapsto> insert (d, l) (case table (i, j) of None \<Rightarrow> {} | Some s \<Rightarrow> s))"
  using assms by (auto simp: store_match_def Let_def split: if_splits)

lemma store_match_inv:
  assumes "store_match i t1 t2 (d, r) table = Inr table'"
    and "table_inv ds table" and "0 \<le> d" "d < int (shape0 (ds ! i))"
  shows "table_inv ds table'"
proof -
  from store_match_result [OF assms(1)] obtain j l
    where t: "table' = table((i, j) \<mapsto> insert (d, l) (case table (i, j) of None \<Rightarrow> {} | Some s \<Rightarrow> s))"
    by blast
  show ?thesis
    unfolding table_inv_def
  proof (intro allI impI)
    fix i' j' s assume s: "table' (i', j') = Some s"
    show "s \<noteq> {} \<and> (\<forall>(d, l) \<in> s. 0 \<le> d \<and> d < int (shape0 (ds ! i')))"
    proof (cases "(i', j') = (i, j)")
      case True
      then have "s = insert (d, l) (case table (i, j) of None \<Rightarrow> {} | Some s \<Rightarrow> s)"
        using s t by simp
      then show ?thesis using assms(2,3,4) True
        by (auto simp: table_inv_def split: option.splits)
    next
      case False
      then have "table (i', j') = Some s" using s t by (simp split: if_splits)
      then show ?thesis using assms(2) by (simp add: table_inv_def)
    qed
  qed
qed

lemma match_pairs_range:
  assumes "(d, r) \<in> match_pairs n ind"
  shows "0 \<le> d \<and> d < int n"
  using assms by (auto simp: match_pairs_def dest!: set_zip_leftD)

lemma finite_match_pairs: "finite (match_pairs n ind)"
  unfolding match_pairs_def by (rule finite_set)

lemma search_range:
  assumes "(if approx then nn_approx E curr_ds curr_ref knn else nn E curr_ds curr_ref knn p) = Inr match"
  shows "finite match \<and> (\<forall>(d, r) \<in> match. 0 \<le> d \<and> d < int (shape0 curr_ds))"
  using assms match_pairs_range finite_match_pairs
  by (auto simp: nn_approx_def nn_def ebind_eq_Inr split: if_splits)

lemma fill_table_inv:
  assumes f: "fill_table E table i (ds ! i) refs base_ds knn approx = Inr table'"
    and inv: "table_inv ds table"
  shows "table_inv ds table'"
proof -
  from f obtain curr_ref match t1 t2 pos
    where s: "(if approx then nn_approx E (ds ! i) curr_ref knn else nn E (ds ! i) curr_ref knn 1) = Inr match"
      and e: "efold (store_match i t1 t2) (sorted_list_of_set match) table = Inr table'"
    by (auto simp: fill_table_def ebind_eq_Inr)
  from search_range [OF s] have fin: "finite match"
    and rng: "\<forall>(d, r) \<in> match. 0 \<le> d \<and> d < int (shape0 (ds ! i))" by auto
  show ?thesis
  proof (rule efold_invariant [OF e, where P = "table_inv ds"])
    show "table_inv ds table" by (rule inv)
  next
    fix x t t'
    assume x: "x \<in> set (sorted_list_of_set match)" and t: "table_inv ds t"
      and st: "store_match i t1 t2 x t = Inr t'"
    obtain d r where xr: "x = (d, r)" by (cases x)
    from x fin have "(d, r) \<in> match" by (simp add: xr)
    with rng have "0 \<le> d" "d < int (shape0 (ds ! i))" by auto
    then show "table_inv ds t'" using store_match_inv [OF st [unfolded xr] t] by simp
  qed
qed

lemma fill_step_inv:
  assumes "fill_step E ds knn approx i table = Inr table'" and "table_inv ds table"
  shows "table_inv ds table'"
  using assms
  by (auto simp: fill_step_def ebind_eq_Inr split: if_splits dest: fill_table_inv)

lemma fill_tables_inv:
  assumes "fill_tables E ds knn approx = Inr table"
  shows "table_inv ds table"
proof (rule efold_invariant [OF assms [unfolded fill_tables_def], where P = "table_inv ds"])
  show "table_inv ds Map.empty" by (simp add: table_inv_def)
qed (rule fill_step_inv)

lemma np_concatenate_shape0:
  assumes "np_concatenate ms = Inr m"
  shows "shape0 m = sum_list (map shape0 ms)"
proof -
  have "length (concat (map rows ms)) = sum_list (map shape0 ms)"
    by (induction ms) (simp_all add: shape0_def)
  then show ?thesis
    using assms by (auto simp: np_concatenate_def shape0_def split: list.splits if_splits)
qed

text \<open>
  C10. In \<open>fill_table\<close>, when every dataset of the reference list is non-empty and every
  neighbour index the search returns lies in \<open>[0, total reference size)\<close>, every matched
  offset \<open>r\<close> lies in exactly one interval of each tree, the two lookups agree on the
  interval, the local offset \<open>r - base\<close> is not negative, and \<open>fill_table\<close> returns
  without raising.
\<close>

theorem fill_table_assertions_hold:
  assumes ne: "\<forall>ds \<in> set datasets. 0 < shape0 ds"
    and cat: "np_concatenate datasets = Inr curr_ref"
    and srch: "(if approx then nn_approx E curr_ds curr_ref knn
                else nn E curr_ds curr_ref knn 1) = Inr match"
    and rng: "\<forall>(d, r) \<in> match. 0 \<le> r \<and> r < int (shape0 curr_ref)"
  shows "\<exists>itree_ds_idx itree_pos_base pos.
           build_itrees datasets base_ds = Inr (itree_ds_idx, itree_pos_base, pos)
         \<and> (\<forall>(d, r) \<in> match. \<exists>b e k.
               itree_get itree_ds_idx r = [(b, e, base_ds + k)] \<and> k < length datasets
             \<and> itree_get itree_pos_base r = [(b, e, b)] \<and> r - b \<ge> 0)
         \<and> (\<exists>table'. fill_table E table i curr_ds datasets base_ds knn approx = Inr table')"
proof -
  from build_itrees_inv [OF ne, of base_ds] obtain t1 t2 pos
    where b: "build_itrees datasets base_ds = Inr (t1, t2, pos)"
      and inv: "itrees_inv datasets base_ds (length datasets) (t1, t2, pos)"
    by auto
  have pos: "pos = int (shape0 curr_ref)"
    using inv np_concatenate_shape0 [OF cat] by (simp add: itrees_inv_def)
  have look: "\<exists>b e k. itree_get t1 r = [(b, e, base_ds + k)] \<and> k < length datasets
             \<and> itree_get t2 r = [(b, e, b)] \<and> r - b \<ge> 0" if "(d, r) \<in> match" for d r
  proof -
    from that rng pos have "0 \<le> r" "r < pos" by auto
    from itrees_lookup [OF inv this] show ?thesis by fastforce
  qed
  from search_range [OF srch] have fin: "finite match" by simp
  have "\<exists>s'. store_match i t1 t2 x s = Inr s'" if "x \<in> set (sorted_list_of_set match)" for x s
  proof -
    obtain d r where x: "x = (d, r)" by (cases x)
    with that fin have "(d, r) \<in> match" by simp
    with rng pos have "0 \<le> r" "r < pos" by auto
    from store_match_ok [OF inv this] show ?thesis unfolding x .
  qed
  then have "\<exists>table'. efold (store_match i t1 t2) (sorted_list_of_set match) table = Inr table'"
    by (rule efold_total)
  then have "\<exists>table'. fill_table E table i curr_ds datasets base_ds knn approx = Inr table'"
    using cat srch b by (simp add: fill_table_def)
  then show ?thesis using b look by blast
qed

lemma ex_cat: "np_concatenate [ex_B, ex_C] = Inr \<lparr>ncols = 1, rows = [[1], [-1], [-1]]\<rparr>"
  by (simp add: np_concatenate_def ex_B_def ex_C_def)

lemma ex_search: "nn_approx ex_searcher ex_A \<lparr>ncols = 1, rows = [[1], [-1], [-1]]\<rparr> 2 = Inr {(0, 0), (0, 1), (1, 0), (1, 1)}"
  by code_simp

theorem fill_table_assertions_hold_witness:
  "0 < shape0 ex_B \<and> 0 < shape0 ex_C
   \<and> np_concatenate [ex_B, ex_C] = Inr \<lparr>ncols = 1, rows = [[1], [-1], [-1]]\<rparr>
   \<and> nn_approx ex_searcher ex_A \<lparr>ncols = 1, rows = [[1], [-1], [-1]]\<rparr> 2
        = Inr {(0, 0), (0, 1), (1, 0), (1, 1)}
   \<and> int (shape0 \<lparr>ncols = 1, rows = [[1], [-1], [-1]]\<rparr>) = 3
   \<and> (\<exists>table'. fill_table ex_searcher Map.empty 0 ex_A [ex_B, ex_C] 1 2 True = Inr table')"
proof -
  have ne: "\<forall>ds \<in> set [ex_B, ex_C]. 0 < shape0 ds"
    by (simp add: ex_B_def ex_C_def shape0_def)
  have srch: "(if True then nn_approx ex_searcher ex_A \<lparr>ncols = 1, rows = [[1], [-1], [-1]]\<rparr> 2
      else nn ex_searcher ex_A \<lparr>ncols = 1, rows = [[1], [-1], [-1]]\<rparr> 2 1)
      = Inr {(0, 0), (0, 1), (1, 0), (1, 1)}"
    using ex_search by simp
  have sz: "int (shape0 \<lparr>ncols = 1, rows = [[1], [-1], [-1]]\<rparr>) = 3"
    by (simp add: shape0_def)
  have rng: "\<forall>(d, r) \<in> {(0, 0), (0, 1), (1, 0), (1, 1)}.
      (0::int) \<le> r \<and> r < int (shape0 \<lparr>ncols = 1, rows = [[1], [-1], [-1]]\<rparr>)"
    by (simp add: shape0_def)
  from fill_table_assertions_hold [OF ne ex_cat srch rng, of 1 Map.empty 0]
  have "\<exists>table'. fill_table ex_searcher Map.empty 0 ex_A [ex_B, ex_C] 1 2 True = Inr table'"
    by blast
  then show ?thesis using ne ex_cat ex_search sz by simp
qed

subsection \<open>Alignment scores\<close>

lemma score_step_eq:
  "score_step ds table k (m, t, p) =
     (if scored table k then
        if shape0 (ds ! fst k) = 0 \<or> shape0 (ds ! snd k) = 0 then Inl ZeroDivisionError
        else Inr (m(k \<mapsto> mutual_of table k), AList.update k (score_of ds table k) t,
                  p[fst k := (p ! fst k)[snd k := p ! fst k ! snd k + score_of ds table k]])
      else Inr (m, t, p))"
  by (cases k) (auto simp: score_step_def scored_def mutual_of_def score_of_def Let_def
      split: option.splits)

lemma score_fold_lookup:
  assumes "efold (score_step ds table) xs (m0, t0, p0) = Inr (m1, t1, p1)" and "distinct xs"
  shows "map_of t1 k = (if k \<in> set xs \<and> scored table k then Some (score_of ds table k) else map_of t0 k)
       \<and> m1 k = (if k \<in> set xs \<and> scored table k then Some (mutual_of table k) else m0 k)"
  using assms
proof (induction xs arbitrary: m0 t0 p0)
  case Nil
  then show ?case by simp
next
  case (Cons x xs)
  from Cons.prems(1) obtain s where s: "score_step ds table x (m0, t0, p0) = Inr s"
    and r: "efold (score_step ds table) xs s = Inr (m1, t1, p1)"
    by (auto simp: ebind_eq_Inr)
  obtain m t p where mtp: "s = (m, t, p)" by (cases s)
  from Cons.prems(2) have d: "distinct xs" and nx: "x \<notin> set xs" by auto
  note IH = Cons.IH [OF r [unfolded mtp] d]
  show ?case
  proof (cases "scored table x")
    case True
    with s mtp have "m = m0(x \<mapsto> mutual_of table x)"
      and "t = AList.update x (score_of ds table x) t0"
      by (auto simp: score_step_eq split: if_splits)
    then show ?thesis using IH nx True by (auto simp: AList.update_conv')
  next
    case False
    with s mtp have "m = m0" "t = t0" by (auto simp: score_step_eq)
    then show ?thesis using IH False by auto
  qed
qed

lemma score_fold_total:
  assumes "\<And>k. scored table k \<Longrightarrow> shape0 (ds ! fst k) \<noteq> 0 \<and> shape0 (ds ! snd k) \<noteq> 0"
  shows "\<exists>s'. efold (score_step ds table) xs s = Inr s'"
proof (rule efold_total)
  fix x and s :: "matches \<times> scores \<times> real list list"
  obtain m t p where "s = (m, t, p)" by (cases s)
  then show "\<exists>s'. score_step ds table x s = Inr s'"
    using assms [of x] by (auto simp: score_step_eq)
qed

lemma table_inv_sizes:
  assumes "table_inv ds table" and "scored table k"
  shows "shape0 (ds ! fst k) \<noteq> 0 \<and> shape0 (ds ! snd k) \<noteq> 0"
proof -
  from assms(2) obtain a b where a: "table (fst k, snd k) = Some a" and b: "table (snd k, fst k) = Some b"
    by (auto simp: scored_def)
  from assms(1) a obtain x where "x \<in> a" "\<forall>(d, l) \<in> a. 0 \<le> d \<and> d < int (shape0 (ds ! fst k))"
    unfolding table_inv_def by blast
  then have 1: "shape0 (ds ! fst k) \<noteq> 0" by (cases x) auto
  from assms(1) b obtain y where "y \<in> b" "\<forall>(d, l) \<in> b. 0 \<le> d \<and> d < int (shape0 (ds ! snd k))"
    unfolding table_inv_def by blast
  then have "shape0 (ds ! snd k) \<noteq> 0" by (cases y) auto
  then show ?thesis using 1 by simp
qed

lemma card_int_range:
  assumes "S \<subseteq> {0..<int n}"
  shows "card S \<le> n"
proof -
  have "card S \<le> card {0..<int n}" by (rule card_mono) (use assms in auto)
  then show ?thesis by simp
qed

lemma score_of_bounds:
  assumes inv: "table_inv ds table" and sc: "scored table k"
  shows "0 \<le> score_of ds table k \<and> score_of ds table k \<le> 1"
proof -
  from sc obtain a b where a: "table (fst k, snd k) = Some a" and b: "table (snd k, fst k) = Some b"
    by (auto simp: scored_def)
  from table_inv_sizes [OF inv sc]
  have n: "0 < shape0 (ds ! fst k)" "0 < shape0 (ds ! snd k)" by auto
  have ra: "\<forall>(d, l) \<in> a. 0 \<le> d \<and> d < int (shape0 (ds ! fst k))"
    using inv a unfolding table_inv_def by blast
  have rb: "\<forall>(d, l) \<in> b. 0 \<le> d \<and> d < int (shape0 (ds ! snd k))"
    using inv b unfolding table_inv_def by blast
  have m: "mutual_of table k = a \<inter> (\<lambda>(a, b). (b, a)) ` b"
    using a b by (simp add: mutual_of_def)
  have "fst ` mutual_of table k \<subseteq> {0..<int (shape0 (ds ! fst k))}"
    unfolding m using ra by force
  then have c1: "card (fst ` mutual_of table k) \<le> shape0 (ds ! fst k)"
    by (rule card_int_range)
  have "snd ` mutual_of table k \<subseteq> {0..<int (shape0 (ds ! snd k))}"
    unfolding m using rb by force
  then have c2: "card (snd ` mutual_of table k) \<le> shape0 (ds ! snd k)"
    by (rule card_int_range)
  have "real (card (fst ` mutual_of table k)) / real (shape0 (ds ! fst k)) \<le> 1"
    using c1 n by simp
  moreover have "real (card (snd ` mutual_of table k)) / real (shape0 (ds ! snd k)) \<le> 1"
    using c2 n by simp
  moreover have "0 \<le> real (card (fst ` mutual_of table k)) / real (shape0 (ds ! fst k))"
    by simp
  ultimately show ?thesis unfolding score_of_def by (simp add: max_def)
qed

lemma score_tables_lookup:
  assumes inv: "table_inv ds table"
  shows "\<exists>matches table1 table_print.
           score_tables ds table = Inr (matches, table1, table_print)
         \<and> (\<forall>i j. i < j \<and> j < length ds \<and> table (i, j) \<noteq> None \<and> table (j, i) \<noteq> None \<longrightarrow>
               map_of table1 (i, j) = Some (score_of ds table (i, j))
             \<and> matches (i, j) = Some (mutual_of table (i, j)))"
proof -
  let ?xs = "List.product [0..<length ds] [0..<length ds]"
  from score_fold_total [of table ds ?xs "(Map.empty, [], replicate (length ds) (replicate (length ds) 0))"]
    table_inv_sizes [OF inv]
  obtain s where s: "score_tables ds table = Inr s"
    unfolding score_tables_def by blast
  obtain m t p where mtp: "s = (m, t, p)" by (cases s)
  have d: "distinct ?xs" by (simp add: distinct_product)
  note L = score_fold_lookup [OF s [unfolded score_tables_def mtp] d]
  have "map_of t (i, j) = Some (score_of ds table (i, j)) \<and> m (i, j) = Some (mutual_of table (i, j))"
    if "i < j" "j < length ds" "table (i, j) \<noteq> None" "table (j, i) \<noteq> None" for i j
    using L [of "(i, j)"] that by (simp add: scored_def)
  then show ?thesis using s mtp by blast
qed

lemma shape0_normalize_mat: "shape0 (normalize_mat m) = shape0 m"
  by (simp add: normalize_mat_def shape0_def)

text \<open>
  C6. For every pair \<open>i < j\<close> for which both directional tables exist,
  \<open>find_alignments_table\<close> returns, and the score it stores for \<open>(i, j)\<close> is the larger of
  (distinct \<open>i\<close>-side points of the mutual match set / size of dataset \<open>i\<close>) and
  (distinct \<open>j\<close>-side points / size of dataset \<open>j\<close>); the score lies in \<open>[0, 1]\<close>.
\<close>

theorem alignment_score_formula:
  assumes fill: "fill_tables E (if prenormalized then datasets else map normalize_mat datasets)
                   knn approx = Inr table"
    and ij: "i < j" "j < length datasets"
    and t_ij: "table (i, j) = Some t_ij" and t_ji: "table (j, i) = Some t_ji"
  shows "\<exists>table1 table_print matches val.
           find_alignments_table E datasets knn approx prenormalized
             = Inr (table1, table_print, matches)
         \<and> matches (i, j) = Some (t_ij \<inter> (\<lambda>(a, b). (b, a)) ` t_ji)
         \<and> map_of table1 (i, j) = Some val
         \<and> val = max (real (card (fst ` (t_ij \<inter> (\<lambda>(a, b). (b, a)) ` t_ji)))
                         / real (shape0 (datasets ! i)))
                      (real (card (snd ` (t_ij \<inter> (\<lambda>(a, b). (b, a)) ` t_ji)))
                         / real (shape0 (datasets ! j)))
         \<and> 0 \<le> val \<and> val \<le> 1"
proof -
  let ?ds = "if prenormalized then datasets else map normalize_mat datasets"
  have len: "length ?ds = length datasets" by simp
  have sz: "shape0 (?ds ! i) = shape0 (datasets ! i)" "shape0 (?ds ! j) = shape0 (datasets ! j)"
    using ij by (simp_all add: shape0_normalize_mat)
  have inv: "table_inv ?ds table" by (rule fill_tables_inv [OF fill])
  from score_tables_lookup [OF inv] obtain matches table1 table_print
    where s: "score_tables ?ds table = Inr (matches, table1, table_print)"
      and l: "\<forall>i j. i < j \<and> j < length ?ds \<and> table (i, j) \<noteq> None \<and> table (j, i) \<noteq> None \<longrightarrow>
               map_of table1 (i, j) = Some (score_of ?ds table (i, j))
             \<and> matches (i, j) = Some (mutual_of table (i, j))"
    by blast
  have sc: "scored table (i, j)" using ij t_ij t_ji by (simp add: scored_def)
  have m: "mutual_of table (i, j) = t_ij \<inter> (\<lambda>(a, b). (b, a)) ` t_ji"
    using t_ij t_ji by (simp add: mutual_of_def)
  have v: "score_of ?ds table (i, j)
      = max (real (card (fst ` (t_ij \<inter> (\<lambda>(a, b). (b, a)) ` t_ji))) / real (shape0 (datasets ! i)))
            (real (card (snd ` (t_ij \<inter> (\<lambda>(a, b). (b, a)) ` t_ji))) / real (shape0 (datasets ! j)))"
    unfolding score_of_def m using sz by simp
  have f: "find_alignments_table E datasets knn approx prenormalized
      = Inr (table1, table_print, matches)"
    using fill s by (simp add: find_alignments_table_def Let_def if_distrib [of "\<lambda>d. fill_tables E d knn approx"] split: if_splits)
  from l ij len t_ij t_ji
  have "map_of table1 (i, j) = Some (score_of ?ds table (i, j))"
    and "matches (i, j) = Some (mutual_of table (i, j))"
    by simp_all
  then show ?thesis
    using f m v score_of_bounds [OF inv sc] by (metis (no_types, lifting))
qed

lemma ex_fill_tables:
  "case fill_tables ex_searcher [ex_A, ex_B, ex_C] 1 True of
     Inr t \<Rightarrow> t (0, 1) = Some {(0, 0), (1, 0)} \<and> t (1, 0) = Some {(0, 0)}
   | Inl e \<Rightarrow> False"
  by code_simp

theorem alignment_score_formula_witness:
  "\<exists>table. fill_tables ex_searcher (if True then [ex_A, ex_B, ex_C] else map normalize_mat [ex_A, ex_B, ex_C]) 1 True = Inr table
     \<and> (0::nat) < 1 \<and> 1 < length [ex_A, ex_B, ex_C]
     \<and> table (0, 1) = Some {(0, 0), (1, 0)} \<and> table (1, 0) = Some {(0, 0)}
     \<and> (\<exists>table1 table_print matches.
           find_alignments_table ex_searcher [ex_A, ex_B, ex_C] 1 True True
             = Inr (table1, table_print, matches)
         \<and> matches (0, 1) = Some {(0, 0)} \<and> map_of table1 (0, 1) = Some 1)"
proof -
  obtain table where f: "fill_tables ex_searcher (if True then [ex_A, ex_B, ex_C] else map normalize_mat [ex_A, ex_B, ex_C]) 1 True = Inr table"
    and a: "table (0, 1) = Some {(0, 0), (1, 0)}" and b: "table (1, 0) = Some {(0, 0)}"
    using ex_fill_tables by (auto split: sum.splits)
  have i: "(0::nat) < 1" and j: "1 < length [ex_A, ex_B, ex_C]" by simp_all
  have m: "{(0::int, 0::int), (1, 0)} \<inter> (\<lambda>(a, b). (b, a)) ` {(0, 0)} = {(0, 0)}"
    by auto
  have v: "max (real (card (fst ` {(0::int, 0::int)})) / real (shape0 ([ex_A, ex_B, ex_C] ! 0)))
               (real (card (snd ` {(0::int, 0::int)})) / real (shape0 ([ex_A, ex_B, ex_C] ! 1))) = 1"
    by (simp add: shape0_def ex_A_def ex_B_def)
  show ?thesis
    using alignment_score_formula [OF f i j a b] f a b unfolding m v by auto
qed

subsection \<open>Panoramas\<close>

lemma pan_inv_append:
  assumes "pan_inv ps c" and "a \<noteq> []" and "distinct a" and "set a \<inter> c = {}"
  shows "pan_inv (ps @ [a]) (c \<union> set a)"
proof -
  have "a \<notin> set ps"
  proof
    assume "a \<in> set ps"
    then have "set a \<subseteq> c" using assms(1) by (auto simp: pan_inv_def)
    then show False using assms(2,4) by (cases a) auto
  qed
  moreover have "set a \<inter> set b = {}" if "b \<in> set ps" for b
    using that assms(1,4) by (auto simp: pan_inv_def)
  ultimately show ?thesis
    using assms(1,2,3) unfolding pan_inv_def by (auto simp: Int_commute)
qed

lemma pan_inv_replace:
  assumes inv: "pan_inv ps c" and p: "p < length ps"
    and a': "a' \<noteq> []" "distinct a'" "set (ps ! p) \<subseteq> set a'" "(set a' - set (ps ! p)) \<inter> c = {}"
  shows "pan_inv (ps[p := a']) (c \<union> set a')"
proof -
  let ?a = "ps ! p"
  have d: "distinct ps" using inv by (simp add: pan_inv_def)
  have mem: "?a \<in> set ps" using p by simp
  have ane: "?a \<noteq> []" using inv mem by (auto simp: pan_inv_def)
  have s: "set (ps[p := a']) = insert a' (set ps - {?a})"
    using d p by (rule set_update_distinct)
  have others: "set a' \<inter> set b = {}" if b: "b \<in> set ps" "b \<noteq> ?a" for b
  proof -
    have 1: "set ?a \<inter> set b = {}" using inv mem b by (auto simp: pan_inv_def)
    have "set b \<subseteq> c" using inv b by (auto simp: pan_inv_def)
    then have 2: "(set a' - set ?a) \<inter> set b = {}" using a'(4) by auto
    from 1 2 show ?thesis by auto
  qed
  have notin: "a' \<notin> set ps - {?a}"
  proof
    assume "a' \<in> set ps - {?a}"
    then have "a' \<in> set ps" "a' \<noteq> ?a" by auto
    from others [OF this] have "set a' = {}" by simp
    then show False using a'(1) by simp
  qed
  have d': "distinct (ps[p := a'])"
    using d notin by (rule distinct_list_update)
  have u: "\<Union> (set ` set (ps[p := a'])) = c \<union> set a'"
  proof -
    have "\<Union> (set ` set ps) = c" using inv by (simp add: pan_inv_def)
    moreover have "\<Union> (set ` set ps) = set ?a \<union> \<Union> (set ` (set ps - {?a}))"
      using mem by auto
    ultimately show ?thesis unfolding s using a'(3) by auto
  qed
  show ?thesis
    unfolding pan_inv_def
  proof (intro conjI ballI impI)
    show "distinct (ps[p := a'])" by (rule d')
    show "\<Union> (set ` set (ps[p := a'])) = c \<union> set a'" by (rule u)
  next
    fix a assume "a \<in> set (ps[p := a'])"
    then show "a \<noteq> []" "distinct a" using s a' inv by (auto simp: pan_inv_def)
  next
    fix a b assume ab: "a \<in> set (ps[p := a'])" "b \<in> set (ps[p := a'])" "a \<noteq> b"
    then consider "a = a'" "b \<in> set ps" "b \<noteq> ?a" | "b = a'" "a \<in> set ps" "a \<noteq> ?a"
      | "a \<in> set ps" "b \<in> set ps" unfolding s by auto
    then show "set a \<inter> set b = {}"
    proof cases
      case 1 then show ?thesis using others by simp
    next
      case 2 then show ?thesis using others [of a] by (simp add: Int_commute)
    next
      case 3 then show ?thesis using inv ab(3) by (simp add: pan_inv_def)
    qed
  qed
qed

lemma pan_inv_extend:
  assumes "pan_inv ps c" and "p < length ps" and "x \<notin> c"
  shows "pan_inv (ps[p := ps ! p @ [x]]) (insert x c)"
proof -
  have "set (ps ! p) \<subseteq> c" using assms(1,2) by (force simp: pan_inv_def)
  then have "x \<notin> set (ps ! p)" using assms(3) by auto
  moreover have "distinct (ps ! p)" using assms(1,2) by (simp add: pan_inv_def)
  ultimately have "pan_inv (ps[p := ps ! p @ [x]]) (c \<union> set (ps ! p @ [x]))"
    using assms by (intro pan_inv_replace) auto
  moreover have "c \<union> set (ps ! p @ [x]) = insert x c"
    using \<open>set (ps ! p) \<subseteq> c\<close> by auto
  ultimately show ?thesis by simp
qed

lemma pan_inv_merge:
  assumes inv: "pan_inv ps c" and p: "p < length ps" and q: "q < length ps" and pq: "p \<noteq> q"
  shows "pan_inv (merge_panoramas ps p q) c"
proof -
  let ?a = "ps ! p" and ?b = "ps ! q"
  let ?ps' = "ps[p := ?a @ ?b]"
  have d: "distinct ps" using inv by (simp add: pan_inv_def)
  have ne: "?a \<noteq> ?b" using d p q pq by (simp add: nth_eq_iff_index_eq)
  have ma: "?a \<in> set ps" and mb: "?b \<in> set ps" using p q by simp_all
  have disj: "set ?a \<inter> set ?b = {}" using inv ma mb ne by (simp add: pan_inv_def)
  have bne: "?b \<noteq> []" "?a \<noteq> []" using inv ma mb by (auto simp: pan_inv_def)
  have da: "distinct (?a @ ?b)" using inv ma mb disj by (simp add: pan_inv_def)
  have others: "set (?a @ ?b) \<inter> set x = {}" if x: "x \<in> set ps" "x \<noteq> ?a" "x \<noteq> ?b" for x
  proof -
    have "set ?a \<inter> set x = {}" "set ?b \<inter> set x = {}"
      using inv ma mb x by (auto simp: pan_inv_def)
    then show ?thesis by auto
  qed
  have nb: "?a @ ?b \<noteq> ?b" using bne by simp
  have notin: "?a @ ?b \<notin> set ps - {?a}"
  proof
    assume "?a @ ?b \<in> set ps - {?a}"
    then have "?a @ ?b \<in> set ps" "?a @ ?b \<noteq> ?a" by auto
    from others [OF this nb] have "set (?a @ ?b) = {}" by simp
    then show False using bne by simp
  qed
  have s': "set ?ps' = insert (?a @ ?b) (set ps - {?a})"
    using d p by (rule set_update_distinct)
  have d': "distinct ?ps'" using d notin by (rule distinct_list_update)
  have q': "?ps' ! q = ?b" using pq by simp
  have m: "merge_panoramas ps p q = remove1 ?b ?ps'"
    using ne q' by (simp add: merge_panoramas_def Let_def)
  have s: "set (remove1 ?b ?ps') = insert (?a @ ?b) (set ps - {?a, ?b})"
    using d' s' nb by auto
  have u: "\<Union> (set ` insert (?a @ ?b) (set ps - {?a, ?b})) = \<Union> (set ` set ps)"
    using ma mb by auto
  show ?thesis
    unfolding m pan_inv_def s u
  proof (intro conjI ballI impI)
    show "distinct (remove1 ?b ?ps')" using d' by simp
    show "\<Union> (set ` set ps) = c" using inv by (simp add: pan_inv_def)
  next
    fix x assume "x \<in> insert (?a @ ?b) (set ps - {?a, ?b})"
    then show "x \<noteq> []" "distinct x" using da bne inv by (auto simp: pan_inv_def)
  next
    fix x y assume xy: "x \<in> insert (?a @ ?b) (set ps - {?a, ?b})"
      "y \<in> insert (?a @ ?b) (set ps - {?a, ?b})" "x \<noteq> y"
    then consider "x = ?a @ ?b" "y \<in> set ps" "y \<noteq> ?a" "y \<noteq> ?b"
      | "y = ?a @ ?b" "x \<in> set ps" "x \<noteq> ?a" "x \<noteq> ?b"
      | "x \<in> set ps" "y \<in> set ps" by auto
    then show "set x \<inter> set y = {}"
    proof cases
      case 1 then show ?thesis using others [of y] by simp
    next
      case 2 then show ?thesis using others [of x] by (simp add: Int_commute)
    next
      case 3 then show ?thesis using inv xy(3) by (simp add: pan_inv_def)
    qed
  qed
qed

lemma find_panoramas_set:
  "set (find_panoramas ps i) = {p. p < length ps \<and> i \<in> set (ps ! p)}"
  by (auto simp: find_panoramas_def)

lemma find_panoramas_le1:
  assumes "pan_inv ps c"
  shows "length (find_panoramas ps i) \<le> 1"
proof -
  have d: "distinct (find_panoramas ps i)" by (simp add: find_panoramas_def)
  have "p = q" if "p \<in> set (find_panoramas ps i)" "q \<in> set (find_panoramas ps i)" for p q
  proof (rule ccontr)
    assume "p \<noteq> q"
    from that have pq: "p < length ps" "q < length ps" "i \<in> set (ps ! p)" "i \<in> set (ps ! q)"
      by (auto simp: find_panoramas_set)
    have "distinct ps" using assms by (simp add: pan_inv_def)
    then have "ps ! p \<noteq> ps ! q" using pq \<open>p \<noteq> q\<close> by (simp add: nth_eq_iff_index_eq)
    then have "set (ps ! p) \<inter> set (ps ! q) = {}"
      using assms pq by (simp add: pan_inv_def)
    then show False using pq by auto
  qed
  then have "card (set (find_panoramas ps i)) \<le> Suc 0"
    by (simp add: card_le_Suc0_iff_eq)
  then show ?thesis using distinct_card [OF d] by simp
qed

lemma find_panoramas_empty:
  assumes "pan_inv ps c"
  shows "find_panoramas ps i = [] \<longleftrightarrow> i \<notin> c"
proof -
  have "c = \<Union> (set ` set ps)" using assms by (simp add: pan_inv_def)
  then have "i \<in> c \<longleftrightarrow> (\<exists>a \<in> set ps. i \<in> set a)" by auto
  also have "\<dots> \<longleftrightarrow> (\<exists>p<length ps. i \<in> set (ps ! p))"
    by (metis in_set_conv_nth)
  finally have "i \<in> c \<longleftrightarrow> (\<exists>p<length ps. i \<in> set (ps ! p))" .
  moreover have "find_panoramas ps i = [] \<longleftrightarrow> set (find_panoramas ps i) = {}" by simp
  ultimately show ?thesis unfolding find_panoramas_set by auto
qed

lemma find_panoramas_hd:
  assumes "find_panoramas ps i \<noteq> []"
  shows "hd (find_panoramas ps i) < length ps \<and> i \<in> set (ps ! hd (find_panoramas ps i))"
proof -
  have "hd (find_panoramas ps i) \<in> set (find_panoramas ps i)" using assms by simp
  then show ?thesis unfolding find_panoramas_set by simp
qed

lemma find_panoramas_same:
  assumes "pan_inv ps c" and "p < length ps" and "i \<in> set (ps ! p)"
  shows "find_panoramas ps i = [p]"
proof -
  have "p \<in> set (find_panoramas ps i)" using assms(2,3) by (simp add: find_panoramas_set)
  moreover have "length (find_panoramas ps i) \<le> 1" by (rule find_panoramas_le1 [OF assms(1)])
  ultimately show ?thesis by (cases "find_panoramas ps i") auto
qed

lemma connect_step_inv:
  assumes inv: "pan_inv ps c" and ij: "i \<noteq> j"
  shows "\<exists>ps'. connect_step (i, j) (ps, c) = Inr (ps', insert j (insert i c))
           \<and> pan_inv ps' (insert j (insert i c))"
proof -
  let ?pi = "find_panoramas ps i" and ?pj = "find_panoramas ps j"
  have li: "length ?pi \<le> 1" and lj: "length ?pj \<le> 1"
    using find_panoramas_le1 [OF inv] by simp_all
  consider (neither) "?pi = []" "?pj = []" | (only_j) "?pi = []" "?pj \<noteq> []"
    | (only_i) "?pi \<noteq> []" "?pj = []" | (both) "?pi \<noteq> []" "?pj \<noteq> []" by blast
  then show ?thesis
  proof cases
    case neither
    then have ni: "i \<notin> c" and nj: "j \<notin> c" using find_panoramas_empty [OF inv] by simp_all
    have 1: "pan_inv (ps @ [[i]]) (insert i c)"
      using pan_inv_append [OF inv, of "[i]"] ni by simp
    have 2: "pan_inv ((ps @ [[i]])[length ps := (ps @ [[i]]) ! length ps @ [j]]) (insert j (insert i c))"
      using pan_inv_extend [OF 1, of "length ps" j] nj ij by simp
    have "connect_step (i, j) (ps, c)
        = Inr ((ps @ [[i]])[length ps := (ps @ [[i]]) ! length ps @ [j]], insert j (insert i c))"
      using neither by (simp add: connect_step_def Let_def)
    then show ?thesis using 2 by blast
  next
    case only_j
    then have ni: "i \<notin> c" using find_panoramas_empty [OF inv] by simp
    from find_panoramas_hd [OF only_j(2)] have hj: "hd ?pj < length ps" "j \<in> set (ps ! hd ?pj)"
      by simp_all
    then have "j \<in> c" using inv by (force simp: pan_inv_def)
    then have c: "insert j (insert i c) = insert i c" by auto
    have "pan_inv (ps[hd ?pj := ps ! hd ?pj @ [i]]) (insert i c)"
      by (rule pan_inv_extend [OF inv hj(1) ni])
    moreover have "connect_step (i, j) (ps, c)
        = Inr (ps[hd ?pj := ps ! hd ?pj @ [i]], insert j (insert i c))"
      using only_j lj by (simp add: connect_step_def Let_def)
    ultimately show ?thesis unfolding c by blast
  next
    case only_i
    then have nj: "j \<notin> c" using find_panoramas_empty [OF inv] by simp
    from find_panoramas_hd [OF only_i(1)] have hi: "hd ?pi < length ps" "i \<in> set (ps ! hd ?pi)"
      by simp_all
    then have "i \<in> c" using inv by (force simp: pan_inv_def)
    then have c: "insert j (insert i c) = insert j c" by auto
    have "pan_inv (ps[hd ?pi := ps ! hd ?pi @ [j]]) (insert j c)"
      by (rule pan_inv_extend [OF inv hi(1) nj])
    moreover have "connect_step (i, j) (ps, c)
        = Inr (ps[hd ?pi := ps ! hd ?pi @ [j]], insert j (insert i c))"
      using only_i li by (simp add: connect_step_def Let_def)
    ultimately show ?thesis unfolding c by blast
  next
    case both
    from find_panoramas_hd [OF both(1)] have hi: "hd ?pi < length ps" "i \<in> set (ps ! hd ?pi)"
      by simp_all
    from find_panoramas_hd [OF both(2)] have hj: "hd ?pj < length ps" "j \<in> set (ps ! hd ?pj)"
      by simp_all
    have "i \<in> c" "j \<in> c" using hi hj inv by (force simp: pan_inv_def)+
    then have c: "insert j (insert i c) = c" by auto
    have step: "connect_step (i, j) (ps, c)
        = Inr (merge_panoramas ps (hd ?pi) (hd ?pj), insert j (insert i c))"
      using both li lj by (simp add: connect_step_def Let_def)
    have "pan_inv (merge_panoramas ps (hd ?pi) (hd ?pj)) c"
    proof (cases "hd ?pi = hd ?pj")
      case True
      then show ?thesis using inv by (simp add: merge_panoramas_def)
    next
      case False
      then show ?thesis by (rule pan_inv_merge [OF inv hi(1) hj(1)])
    qed
    then show ?thesis using step unfolding c by simp
  qed
qed

lemma connect_loop_inv:
  assumes "pan_inv ps c" and "\<forall>(i, j) \<in> set edges. i \<noteq> j"
  shows "\<exists>ps'. efold connect_step edges (ps, c) = Inr (ps', c \<union> fst ` set edges \<union> snd ` set edges)
           \<and> pan_inv ps' (c \<union> fst ` set edges \<union> snd ` set edges)"
  using assms
proof (induction edges arbitrary: ps c)
  case Nil
  then show ?case by simp
next
  case (Cons e edges)
  obtain i j where e: "e = (i, j)" by (cases e)
  with Cons.prems have ij: "i \<noteq> j" by simp
  from connect_step_inv [OF Cons.prems(1) ij] obtain ps1
    where 1: "connect_step (i, j) (ps, c) = Inr (ps1, insert j (insert i c))"
      and 2: "pan_inv ps1 (insert j (insert i c))" by blast
  from Cons.IH [OF 2] Cons.prems(2) obtain ps'
    where 3: "efold connect_step edges (ps1, insert j (insert i c))
        = Inr (ps', insert j (insert i c) \<union> fst ` set edges \<union> snd ` set edges)"
      and 4: "pan_inv ps' (insert j (insert i c) \<union> fst ` set edges \<union> snd ` set edges)"
    by auto
  have "insert j (insert i c) \<union> fst ` set edges \<union> snd ` set edges
      = c \<union> fst ` set (e # edges) \<union> snd ` set (e # edges)"
    unfolding e by auto
  then show ?case using 1 3 4 unfolding e by simp
qed

lemma add_singletons_inv_aux:
  assumes "pan_inv ps (c \<union> {0..<n})"
  shows "pan_inv (if n \<notin> c then ps @ [[n]] else ps) (c \<union> {0..<Suc n})"
proof (cases "n \<in> c")
  case True
  then have "c \<union> {0..<Suc n} = c \<union> {0..<n}" by (auto simp: less_Suc_eq)
  then show ?thesis using True assms by simp
next
  case False
  have "pan_inv (ps @ [[n]]) (c \<union> {0..<n} \<union> set [n])"
    by (rule pan_inv_append [OF assms]) (use False in auto)
  moreover have "c \<union> {0..<n} \<union> set [n] = c \<union> {0..<Suc n}" by auto
  ultimately show ?thesis using False by simp
qed

lemma add_singletons_inv:
  assumes "pan_inv ps c"
  shows "pan_inv (add_singletons n c ps) (c \<union> {0..<n})"
proof (induction n)
  case 0
  then show ?case using assms by (simp add: add_singletons_def)
next
  case (Suc n)
  have "add_singletons (Suc n) c ps
      = (if n \<notin> c then add_singletons n c ps @ [[n]] else add_singletons n c ps)"
    by (simp add: add_singletons_def)
  then show ?case using add_singletons_inv_aux [OF Suc] by simp
qed

lemma pan_inv_partition:
  assumes "pan_inv ps c"
  shows "(\<forall>i \<in> c. \<exists>!p. p < length ps \<and> i \<in> set (ps ! p))
       \<and> (\<forall>p q. p < length ps \<and> q < length ps \<and> p \<noteq> q \<longrightarrow> set (ps ! p) \<inter> set (ps ! q) = {})
       \<and> (\<forall>p < length ps. set (ps ! p) \<subseteq> c \<and> distinct (ps ! p))"
proof (intro conjI ballI allI impI)
  fix i assume "i \<in> c"
  then have "find_panoramas ps i \<noteq> []" using find_panoramas_empty [OF assms] by simp
  from find_panoramas_hd [OF this] obtain p where p: "p < length ps" "i \<in> set (ps ! p)" by blast
  show "\<exists>!p. p < length ps \<and> i \<in> set (ps ! p)"
  proof (rule ex1I [of _ p])
    show "p < length ps \<and> i \<in> set (ps ! p)" using p by simp
  next
    fix q assume "q < length ps \<and> i \<in> set (ps ! q)"
    then have "find_panoramas ps i = [q]" using find_panoramas_same [OF assms] by simp
    moreover have "find_panoramas ps i = [p]" using find_panoramas_same [OF assms p] .
    ultimately show "q = p" by simp
  qed
next
  fix p q assume pq: "p < length ps \<and> q < length ps \<and> p \<noteq> q"
  have "distinct ps" using assms by (simp add: pan_inv_def)
  then have "ps ! p \<noteq> ps ! q" using pq by (simp add: nth_eq_iff_index_eq)
  then show "set (ps ! p) \<inter> set (ps ! q) = {}" using assms pq by (simp add: pan_inv_def)
next
  fix p assume "p < length ps"
  then have "ps ! p \<in> set ps" by simp
  then show "set (ps ! p) \<subseteq> c" "distinct (ps ! p)" using assms by (auto simp: pan_inv_def)
qed

lemma alignments_of_subset: "set (alignments_of t alpha) \<subseteq> fst ` set t"
  by (auto simp: alignments_of_def)

lemma connect_unfold:
  assumes fa: "find_alignments E datasets knn approx alpha False = Inr (al, m)"
  shows "\<exists>ps. connect E datasets knn approx alpha = Inr ps \<and> pan_inv ps {0..<length datasets}"
proof -
  from find_alignments_unfold [OF fa] obtain table1
    where al: "al = alignments_of table1 alpha"
      and keys: "\<forall>k \<in> fst ` set table1. fst k < snd k \<and> snd k < length datasets"
    by blast
  have edges: "\<forall>(i, j) \<in> set al. i < j \<and> j < length datasets"
    using keys alignments_of_subset [of table1 alpha] unfolding al by fastforce
  then have ne: "\<forall>(i, j) \<in> set al. i \<noteq> j" by auto
  have "pan_inv [] {}" by (simp add: pan_inv_def)
  from connect_loop_inv [OF this ne] obtain ps'
    where loop: "efold connect_step al ([], {}) = Inr (ps', {} \<union> fst ` set al \<union> snd ` set al)"
      and inv: "pan_inv ps' ({} \<union> fst ` set al \<union> snd ` set al)" by blast
  let ?c = "{} \<union> fst ` set al \<union> snd ` set al"
  have sub: "?c \<subseteq> {0..<length datasets}" using edges by fastforce
  have "pan_inv (add_singletons (length datasets) ?c ps') (?c \<union> {0..<length datasets})"
    by (rule add_singletons_inv [OF inv])
  moreover have "?c \<union> {0..<length datasets} = {0..<length datasets}" using sub by auto
  moreover have "connect E datasets knn approx alpha
      = Inr (add_singletons (length datasets) ?c ps')"
    using fa loop by (simp add: connect_def)
  ultimately show ?thesis by simp
qed

text \<open>
  C2. When \<open>connect\<close> returns, every dataset index below the number of datasets is in
  exactly one panorama, the panoramas are pairwise disjoint, and they hold nothing but
  dataset indices, each once. \<open>connect\<close> returns whenever \<open>find_alignments\<close> does: the two
  assertions of its loop never fail.
\<close>

theorem connect_partition:
  "(\<forall>panoramas. connect E datasets knn approx alpha = Inr panoramas \<longrightarrow>
      (\<forall>i < length datasets. \<exists>!p. p < length panoramas \<and> i \<in> set (panoramas ! p))
    \<and> (\<forall>p q. p < length panoramas \<and> q < length panoramas \<and> p \<noteq> q \<longrightarrow>
          set (panoramas ! p) \<inter> set (panoramas ! q) = {})
    \<and> (\<forall>p < length panoramas.
          set (panoramas ! p) \<subseteq> {0..<length datasets} \<and> distinct (panoramas ! p)))
   \<and> (\<forall>al m. find_alignments E datasets knn approx alpha False = Inr (al, m) \<longrightarrow>
        (\<exists>panoramas. connect E datasets knn approx alpha = Inr panoramas))"
proof -
  have 1: "\<exists>panoramas. connect E datasets knn approx alpha = Inr panoramas"
    if "find_alignments E datasets knn approx alpha False = Inr (al, m)" for al m
    using connect_unfold [OF that] by blast
  have 2: "(\<forall>i < length datasets. \<exists>!p. p < length panoramas \<and> i \<in> set (panoramas ! p))
    \<and> (\<forall>p q. p < length panoramas \<and> q < length panoramas \<and> p \<noteq> q \<longrightarrow>
          set (panoramas ! p) \<inter> set (panoramas ! q) = {})
    \<and> (\<forall>p < length panoramas.
          set (panoramas ! p) \<subseteq> {0..<length datasets} \<and> distinct (panoramas ! p))"
    if c: "connect E datasets knn approx alpha = Inr panoramas" for panoramas
  proof -
    from c obtain al m where "find_alignments E datasets knn approx alpha False = Inr (al, m)"
      by (auto simp: connect_def ebind_eq_Inr)
    from connect_unfold [OF this] c have "pan_inv panoramas {0..<length datasets}" by auto
    from pan_inv_partition [OF this] show ?thesis by simp
  qed
  from 1 2 show ?thesis by blast
qed

lemma ex_connect:
  "connect ex_searcher [ex_A, ex_B, ex_C] 1 True (1 / 10) = Inr [[0, 1], [2]]"
proof -
  obtain m where "find_alignments ex_searcher [ex_A, ex_B, ex_C] 1 True (1 / 10) False
      = Inr ([(0, 1)], m)"
    using ex_find_alignments [of "1 / 10"] by auto
  moreover have "efold connect_step [(0, 1)] ([], {}) = Inr ([[0, 1]], {0, 1})"
    by code_simp
  moreover have "add_singletons 3 {0, 1} [[0, 1]] = [[0, 1], [2]]"
    by code_simp
  moreover have "length [ex_A, ex_B, ex_C] = 3" by simp
  ultimately show ?thesis unfolding connect_def by (simp only: ebind.simps prod.case)
qed

theorem connect_partition_witness:
  "connect ex_searcher [ex_A, ex_B, ex_C] 1 True (1 / 10) = Inr [[0, 1], [2]]
   \<and> (\<exists>!p. p < length [[0::nat, 1], [2]] \<and> (2::nat) \<in> set ([[0::nat, 1], [2]] ! p))
   \<and> (\<exists>al m. find_alignments ex_searcher [ex_A, ex_B, ex_C] 1 True (1 / 10) False = Inr (al, m))"
proof -
  obtain m where m: "find_alignments ex_searcher [ex_A, ex_B, ex_C] 1 True (1 / 10) False
      = Inr ([(0, 1)], m)"
    using ex_find_alignments [of "1 / 10"] by auto
  note T = connect_partition [of ex_searcher "[ex_A, ex_B, ex_C]" 1 True "1 / 10"]
  note P = T [THEN conjunct1, rule_format, OF ex_connect]
  from P have "\<forall>i < length [ex_A, ex_B, ex_C].
      \<exists>!p. p < length [[0::nat, 1], [2]] \<and> i \<in> set ([[0, 1], [2]] ! p)"
    by (rule conjunct1)
  from this [rule_format, of 2]
  have "\<exists>!p. p < length [[0::nat, 1], [2]] \<and> (2::nat) \<in> set ([[0::nat, 1], [2]] ! p)"
    by simp
  then show ?thesis using ex_connect m by (intro conjI exI) assumption+
qed

subsection \<open>Kernel regression\<close>
























subsection \<open>Assembly\<close>






text \<open>
  C9. In \<open>assemble\<close>, for every edge \<open>(i, j)\<close> for which, after the increment, both visit
  counters exceed 3, the round returns at once: the coordinate matrices, the expression
  matrices and the panoramas are as before, only the counters have changed.
\<close>

theorem assemble_visit_cap:
  assumes "3 < the (visit (visit (s_ds_assembled s) i) j i)"
    and "3 < the (visit (visit (s_ds_assembled s) i) j j)"
  shows "\<exists>s'. assemble_step matches sigma batch_size realign (i, j) s = Some (Inr s')
     \<and> s_datasets s' = s_datasets s
     \<and> s_expr_datasets s' = s_expr_datasets s
     \<and> s_panoramas s' = s_panoramas s
     \<and> s_ds_assembled s' = visit (visit (s_ds_assembled s) i) j"
  using assms by (simp add: assemble_step_def Let_def)

lemma ex_capped_visit:
  "the (visit (visit (s_ds_assembled ex_capped) 0) 1 0) = 4"
  "the (visit (visit (s_ds_assembled ex_capped) 0) 1 1) = 4"
  by (simp_all add: visit_def ex_capped_def)

theorem assemble_visit_cap_witness:
  "(3::nat) < the (visit (visit (s_ds_assembled ex_capped) 0) 1 0)
   \<and> (3::nat) < the (visit (visit (s_ds_assembled ex_capped) 0) 1 1)
   \<and> (\<exists>s'. assemble_step ex_matches 150 None False (0, 1) ex_capped = Some (Inr s')
        \<and> s_datasets s' = ex_points \<and> s_panoramas s' = [[0, 2, 1]])"
proof -
  have a: "(3::nat) < the (visit (visit (s_ds_assembled ex_capped) 0) 1 0)"
    and b: "(3::nat) < the (visit (visit (s_ds_assembled ex_capped) 0) 1 1)"
    by (simp_all add: ex_capped_visit del: One_nat_def)
  from assemble_visit_cap [OF a b, of ex_matches 150 None False]
  have "\<exists>s'. assemble_step ex_matches 150 None False (0, 1) ex_capped = Some (Inr s')
        \<and> s_datasets s' = ex_points \<and> s_panoramas s' = [[0, 2, 1]]"
    by (auto simp: ex_capped_def)
  then show ?thesis using a b by simp
qed















end
